theory Spec2Isabelle
  imports Main "HOL-Library.Word" "HOL-Library.Multiset"
begin

unbundle bit_operations_syntax

section \<open>TBBManager: a registry of named task arenas with per-task context queues\<close>

text \<open>
  A shallow embedding of \<^verbatim>\<open>tbb_manager.h\<close> and \<^verbatim>\<open>tbb_manager.cpp\<close>.
  The singleton's members and the function-local statics become fields of one record
  that every operation takes and returns; a C++ exception becomes the \<open>Inl\<close> branch
  of the operation's result, next to the state the exception leaves behind.
\<close>

subsection \<open>Data model\<close>

text \<open>\<^verbatim>\<open>struct ThreadContext { int thread_id; std::string task_name; uint64_t task_instance_id; }\<close>\<close>

record ThreadContext =
  thread_id :: int
  task_name :: string
  task_instance_id :: "64 word"

text \<open>
  A \<^verbatim>\<open>tbb::task_arena\<close> object as the registry sees it: the concurrency its constructor
  received, and a serial number that tells one constructed object from another (the
  n-th arena constructed by the manager has serial n, counting from 0).
\<close>

record task_arena =
  arena_serial :: nat
  max_concurrency :: int

text \<open>
  \<^verbatim>\<open>struct TBBState { std::shared_ptr<tbb::task_arena> arena; bool initialized = false; }\<close>;
  \<open>None\<close> is the null pointer.
\<close>

record TBBState =
  arena :: "task_arena option"
  initialized :: bool

datatype mutex = arenas_mutex | contexts_mutex

text \<open>What the manager does that an observer can order: a call of the task, a lock taken.\<close>

datatype event = Invoked int | Acquired mutex

text \<open>
  The manager. \<open>task_arenas\<close> and \<open>thread_contexts\<close> are the two member maps (a
  \<^verbatim>\<open>std::queue\<close> is the list of its elements, front first). \<open>global_counter\<close> is the
  static atomic of \<^verbatim>\<open>GenerateUniqueTaskId\<close>, \<open>count_defines\<close> the static map of
  \<^verbatim>\<open>GetTBBParallelCountDefines\<close> with its once-flag (\<open>None\<close>: not yet run to completion).
  Four fields only observe: \<open>arenas_constructed\<close> counts the calls of the arena
  constructor, \<open>lock_log\<close> lists the mutex acquisitions in order, \<open>task_log\<close> lists the
  elements the caller's task was invoked on, and \<open>events\<close> lists both kinds of step in
  the one order in which they happen.
\<close>

record manager =
  task_arenas :: "string \<rightharpoonup> TBBState"
  thread_contexts :: "string \<rightharpoonup> ThreadContext list"
  global_counter :: "32 word"
  count_defines :: "(string \<rightharpoonup> int) option"
  arenas_constructed :: nat
  lock_log :: "mutex list"
  task_log :: "int list"
  events :: "event list"

text \<open>What the process supplies: the flag's text and the engine's default concurrency.\<close>

record environment =
  FLAGS_custom_tbb_parallel_control :: string
  this_task_arena_max_concurrency :: int

datatype stoi_error = invalid_argument | out_of_range

datatype 'e failure = ConfigParseError stoi_error | NullArena | LengthError | TaskError 'e

definition new_manager :: manager where
  "new_manager = \<lparr>task_arenas = Map.empty, thread_contexts = Map.empty, global_counter = 0,
     count_defines = None, arenas_constructed = 0, lock_log = [], task_log = [], events = []\<rparr>"

definition lock_guard :: "mutex \<Rightarrow> manager \<Rightarrow> manager" where
  "lock_guard m s = s\<lparr>lock_log := lock_log s @ [m], events := events s @ [Acquired m]\<rparr>"

subsection \<open>Configuration resolution\<close>

text \<open>
  \<^verbatim>\<open>std::stoi(str)\<close> (base 10, as \<^verbatim>\<open>strtol\<close> reads it): leading white space is skipped,
  one sign is accepted, the longest run of digits is converted and whatever follows it
  is ignored. No digit: \<^verbatim>\<open>std::invalid_argument\<close>. A value outside \<^verbatim>\<open>int\<close>:
  \<^verbatim>\<open>std::out_of_range\<close>.
\<close>

definition isspace :: "char \<Rightarrow> bool" where
  "isspace c \<longleftrightarrow> c = CHR '' '' \<or> (9 :: nat) \<le> of_char c \<and> (of_char c :: nat) \<le> 13"

definition isdigit :: "char \<Rightarrow> bool" where
  "isdigit c \<longleftrightarrow> (48 :: nat) \<le> of_char c \<and> (of_char c :: nat) \<le> 57"

definition digits_value :: "string \<Rightarrow> int" where
  "digits_value ds = foldl (\<lambda>v c. 10 * v + (of_char c - 48)) 0 ds"

definition stoi :: "string \<Rightarrow> stoi_error + int" where
  "stoi str =
     (let t = dropWhile isspace str;
          neg = (t \<noteq> [] \<and> hd t = CHR ''-'');
          u = (if t \<noteq> [] \<and> (hd t = CHR ''-'' \<or> hd t = CHR ''+'') then tl t else t);
          ds = takeWhile isdigit u;
          v = (if neg then - digits_value ds else digits_value ds)
      in if ds = [] then Inl invalid_argument
         else if v < - (2 ^ 31) \<or> 2 ^ 31 - 1 < v then Inl out_of_range
         else Inr v)"

text \<open>
  \<^verbatim>\<open>std::getline(ss, item, delim)\<close> on the unread rest of the stream: it fails when nothing
  is left, and otherwise yields the characters before the first delimiter and consumes
  that delimiter.
\<close>

definition getline :: "string \<Rightarrow> char \<Rightarrow> (string \<times> string) option" where
  "getline ss delim =
     (if ss = [] then None
      else Some (takeWhile (\<lambda>c. c \<noteq> delim) ss, drop 1 (dropWhile (\<lambda>c. c \<noteq> delim) ss)))"

text \<open>\<^verbatim>\<open>item.find(ch)\<close>: the first position of the character, \<open>None\<close> for \<^verbatim>\<open>npos\<close>.\<close>

definition find_char :: "string \<Rightarrow> char \<Rightarrow> nat option" where
  "find_char item ch = (if ch \<in> set item then Some (length (takeWhile (\<lambda>c. c \<noteq> ch) item)) else None)"

lemma getline_shorter: "getline ss delim = Some (item, rest) \<Longrightarrow> length rest < length ss"
proof -
  assume g: "getline ss delim = Some (item, rest)"
  then have ne: "ss \<noteq> []" and r: "rest = drop 1 (dropWhile (\<lambda>c. c \<noteq> delim) ss)"
    by (auto simp: getline_def split: if_splits)
  have "length (dropWhile (\<lambda>c. c \<noteq> delim) ss) \<le> length ss"
    by (rule length_dropWhile_le)
  with ne r show ?thesis
    by (cases "dropWhile (\<lambda>c. c \<noteq> delim) ss") auto
qed

text \<open>The \<^verbatim>\<open>while (std::getline(ss, item, ','))\<close> loop of \<^verbatim>\<open>InitTBBParallelCountDefines\<close>.\<close>

function getline_loop :: "string \<Rightarrow> (string \<rightharpoonup> int) \<Rightarrow> stoi_error + (string \<rightharpoonup> int)" where
  "getline_loop ss defs =
     (case getline ss CHR '','' of
        None \<Rightarrow> Inr defs
      | Some (item, ss') \<Rightarrow>
          (case find_char item CHR '':'' of
             None \<Rightarrow> getline_loop ss' defs
           | Some pos \<Rightarrow>
               (case stoi (drop (pos + 1) item) of
                  Inl err \<Rightarrow> Inl err
                | Inr count' \<Rightarrow> getline_loop ss' (defs(take pos item \<mapsto> count')))))"
  by pat_completeness auto
termination
  by (relation "measure (\<lambda>(ss, defs). length ss)") (auto dest: getline_shorter)

declare getline_loop.simps [simp del]

definition InitTBBParallelCountDefines :: "string \<Rightarrow> stoi_error + (string \<rightharpoonup> int)" where
  "InitTBBParallelCountDefines flag =
     (if flag = [] then Inr Map.empty else getline_loop flag Map.empty)"

text \<open>
  \<^verbatim>\<open>GetTBBParallelCountDefines\<close>: \<^verbatim>\<open>std::call_once\<close> runs the resolution unless an earlier
  run has completed. A run that throws leaves the once-flag unset and the exception goes
  to the caller.
\<close>

definition GetTBBParallelCountDefines ::
    "environment \<Rightarrow> manager \<Rightarrow> (stoi_error + (string \<rightharpoonup> int)) \<times> manager" where
  "GetTBBParallelCountDefines env s =
     (case count_defines s of
        Some defs \<Rightarrow> (Inr defs, s)
      | None \<Rightarrow>
          (case InitTBBParallelCountDefines (FLAGS_custom_tbb_parallel_control env) of
             Inl err \<Rightarrow> (Inl err, s)
           | Inr defs \<Rightarrow> (Inr defs, s\<lparr>count_defines := Some defs\<rparr>)))"

subsection \<open>The arena registry\<close>

text \<open>
  The test both critical sections of \<^verbatim>\<open>Init\<close> make:
  \<^verbatim>\<open>it != task_arenas_.end() && it->second.initialized\<close>, with \<^verbatim>\<open>it->second.arena\<close>
  as the result when it holds.
\<close>

definition find_initialized :: "manager \<Rightarrow> string \<Rightarrow> task_arena option option" where
  "find_initialized s tbb_name =
     (case task_arenas s tbb_name of
        None \<Rightarrow> None
      | Some state \<Rightarrow> if initialized state then Some (arena state) else None)"

text \<open>Lines 60 to 70 of \<^verbatim>\<open>Init\<close>: the concurrency is resolved, then the arena is constructed.\<close>

definition Init_construct ::
    "environment \<Rightarrow> string \<Rightarrow> manager \<Rightarrow> (stoi_error + task_arena option) \<times> manager" where
  "Init_construct env tbb_name s =
     (case GetTBBParallelCountDefines env s of
        (Inl err, s1) \<Rightarrow> (Inl err, s1)
      | (Inr parallel_count_defines, s1) \<Rightarrow>
          (let thread_count =
                 (case parallel_count_defines tbb_name of
                    None \<Rightarrow> this_task_arena_max_concurrency env
                  | Some c \<Rightarrow> c);
               a = \<lparr>arena_serial = arenas_constructed s1, max_concurrency = thread_count\<rparr>
           in (Inr (Some a),
               s1\<lparr>task_arenas := (task_arenas s1)(tbb_name \<mapsto> \<lparr>arena = Some a, initialized = True\<rparr>),
                  arenas_constructed := Suc (arenas_constructed s1)\<rparr>)))"

text \<open>
  \<^verbatim>\<open>Init\<close> has two critical sections on \<^verbatim>\<open>arenas_mutex_\<close>. \<open>Init_write\<close> is the second
  one, from \<^verbatim>\<open>write_lock\<close> on: it looks the name up again and constructs the arena only
  when no initialized entry is there.
\<close>

definition Init_write ::
    "environment \<Rightarrow> string \<Rightarrow> manager \<Rightarrow> (stoi_error + task_arena option) \<times> manager" where
  "Init_write env tbb_name s =
     (let s1 = lock_guard arenas_mutex s in
      case find_initialized s1 tbb_name of
        Some a \<Rightarrow> (Inr a, s1)
      | None \<Rightarrow> Init_construct env tbb_name s1)"

definition Init ::
    "environment \<Rightarrow> string \<Rightarrow> manager \<Rightarrow> (stoi_error + task_arena option) \<times> manager" where
  "Init env tbb_name s =
     (let s1 = lock_guard arenas_mutex s in
      case find_initialized s1 tbb_name of
        Some a \<Rightarrow> (Inr a, s1)
      | None \<Rightarrow> Init_write env tbb_name s1)"

subsection \<open>Task ids\<close>

text \<open>
  \<^verbatim>\<open>GenerateUniqueTaskId\<close>; \<open>now\<close> is the reading of the steady clock
  (\<^verbatim>\<open>time_since_epoch().count()\<close>, 64 bits).
\<close>

definition GenerateUniqueTaskId :: "64 word \<Rightarrow> manager \<Rightarrow> 64 word \<times> manager" where
  "GenerateUniqueTaskId now s =
     (let timestamp = now AND 0xFFFFFFFF;
          counter = (ucast (global_counter s) :: 64 word)
      in (push_bit 32 timestamp OR (counter AND 0xFFFFFFFF),
          s\<lparr>global_counter := global_counter s + 1\<rparr>))"

text \<open>\<^verbatim>\<open>std::to_string\<close> of an unsigned value: its decimal digits.\<close>

function to_string :: "int \<Rightarrow> string" where
  "to_string n =
     (if n < 10 then [char_of (48 + n)] else to_string (n div 10) @ [char_of (48 + n mod 10)])"
  by pat_completeness auto
termination
  by (relation "measure nat") auto

declare to_string.simps [simp del]

definition unique_name :: "string \<Rightarrow> 64 word \<Rightarrow> string" where
  "unique_name tbb_name task_id = tbb_name @ ''_'' @ to_string (uint task_id)"

subsection \<open>The parallel loop\<close>

text \<open>\<^verbatim>\<open>static_cast<int>(i)\<close>: the low 32 bits, read as two's complement.\<close>

definition static_cast_int :: "int \<Rightarrow> int" where
  "static_cast_int i = signed_take_bit 31 i"

text \<open>
  The element loop of the first overload's sub-range callback. The caller's task is the
  function from an element to the error it throws there, if any (\<open>Some err\<close>); it does
  not touch the manager. The context is built before the task runs and pushed to the
  local vector after the task has returned; a task that throws ends the loop, and the
  local vector is gone.
\<close>

function for_loop ::
    "(int \<Rightarrow> 'e option) \<Rightarrow> string \<Rightarrow> 64 word \<Rightarrow> int \<Rightarrow> int \<Rightarrow> ThreadContext list \<Rightarrow> manager
      \<Rightarrow> ('e + ThreadContext list) \<times> manager" where
  "for_loop task tbb_name task_id i e local_contexts s =
     (if i < e then
        (let context = \<lparr>thread_id = static_cast_int i, task_name = tbb_name,
                         task_instance_id = task_id\<rparr>;
             s' = s\<lparr>task_log := task_log s @ [i], events := events s @ [Invoked i]\<rparr>
         in case task i of
              Some err \<Rightarrow> (Inl err, s')
            | None \<Rightarrow> for_loop task tbb_name task_id (i + 1) e (local_contexts @ [context]) s')
      else (Inr local_contexts, s))"
  by pat_completeness auto
termination
  by (relation "measure (\<lambda>(task, tbb_name, task_id, i, e, local_contexts, s). nat (e - i))") auto

declare for_loop.simps [simp del]

text \<open>
  The flush that ends both callbacks: nothing when the local vector is empty; otherwise
  one acquisition of \<^verbatim>\<open>contexts_mutex_\<close>, \<^verbatim>\<open>thread_contexts_[unique_task_name]\<close> (which
  creates an empty queue when the key is new) and one push per context.
\<close>

definition flush :: "string \<Rightarrow> ThreadContext list \<Rightarrow> manager \<Rightarrow> manager" where
  "flush unique_task_name local_contexts s =
     (if local_contexts \<noteq> [] then
        (let s1 = lock_guard contexts_mutex s;
             queue = (case thread_contexts s1 unique_task_name of None \<Rightarrow> [] | Some q \<Rightarrow> q)
         in s1\<lparr>thread_contexts := (thread_contexts s1)
                  (unique_task_name \<mapsto> foldl (\<lambda>q ctx. q @ [ctx]) queue local_contexts)\<rparr>)
      else s)"

text \<open>
  The first overload's callback on the sub-range \<open>[b, e)\<close>. It starts with
  \<^verbatim>\<open>local_contexts.reserve(range.end() - range.begin())\<close>: a negative difference is, as a
  size, beyond \<^verbatim>\<open>max_size()\<close>, and \<^verbatim>\<open>reserve\<close> throws \<^verbatim>\<open>std::length_error\<close>; otherwise it
  changes no content. (Running out of memory is modelled nowhere.) What the callback
  throws is that error or the task's.
\<close>

definition range_body ::
    "(int \<Rightarrow> 'e option) \<Rightarrow> string \<Rightarrow> 64 word \<Rightarrow> string \<Rightarrow> int \<times> int \<Rightarrow> manager
      \<Rightarrow> 'e failure option \<times> manager" where
  "range_body task tbb_name task_id unique_task_name r s =
     (if snd r - fst r < 0 then (Some LengthError, s)
      else
        (case for_loop task tbb_name task_id (fst r) (snd r) [] s of
           (Inl err, s') \<Rightarrow> (Some (TaskError err), s')
         | (Inr local_contexts, s') \<Rightarrow> (None, flush unique_task_name local_contexts s')))"

text \<open>
  \<^verbatim>\<open>tbb::parallel_for\<close> belongs to the external engine, not to this repository. The
  specification states what the manager requires of it (section 6, (c)): it partitions
  the range into sub-ranges of its own choice, runs the callback on each, in no promised
  order, propagates the first error and cancels siblings on error.
  The engine's choices are the argument \<open>sched\<close>: the sub-ranges \<open>(b, e, in_flight)\<close>
  in the order in which their callbacks take effect (a callback touches the manager in
  one step, its flush under the lock). Once a callback has thrown, a sub-range with
  \<open>in_flight\<close> still runs (its worker had started) and any other is cancelled; of
  several errors the first is kept.
\<close>

type_synonym schedule = "(int \<times> int \<times> bool) list"

fun parallel_for ::
    "schedule \<Rightarrow> (int \<times> int \<Rightarrow> manager \<Rightarrow> 'err option \<times> manager) \<Rightarrow> 'err option \<Rightarrow> manager
      \<Rightarrow> 'err option \<times> manager" where
  "parallel_for [] body captured s = (captured, s)"
| "parallel_for ((b, e, in_flight) # rest) body captured s =
     (if captured \<noteq> None \<and> \<not> in_flight then parallel_for rest body captured s
      else (case body (b, e) s of
              (r, s') \<Rightarrow> parallel_for rest body (if captured = None then r else captured) s'))"

text \<open>What the engine promises of a schedule for \<open>[start, end)\<close>: every element once.\<close>

definition sub_elems :: "int \<times> int \<times> bool \<Rightarrow> int list" where
  "sub_elems sub = [fst sub..fst (snd sub) - 1]"

definition engine_partition :: "int \<Rightarrow> int \<Rightarrow> schedule \<Rightarrow> bool" where
  "engine_partition start end' sched \<longleftrightarrow>
     mset (concat (map sub_elems sched)) = mset [start..end' - 1]"

text \<open>
  And every sub-range the engine hands to a callback is a \<^verbatim>\<open>blocked_range\<close>: its end is
  not before its begin, which the constructor of the range requires and splitting keeps.
\<close>

definition blocked_ranges :: "schedule \<Rightarrow> bool" where
  "blocked_ranges sched \<longleftrightarrow> list_all (\<lambda>sub. fst sub \<le> fst (snd sub)) sched"

text \<open>
  \<^verbatim>\<open>ParallelFor(tbb_name, start, end, task)\<close>. \<^verbatim>\<open>arena->execute\<close> runs its job in the
  arena and passes the job's exception on; on a null pointer it has no defined behaviour,
  which is the failure \<open>NullArena\<close> here.
\<close>

definition ParallelFor ::
    "environment \<Rightarrow> 64 word \<Rightarrow> schedule \<Rightarrow> string \<Rightarrow> int \<Rightarrow> int \<Rightarrow> (int \<Rightarrow> 'e option) \<Rightarrow> manager
      \<Rightarrow> ('e failure + unit) \<times> manager" where
  "ParallelFor env now sched tbb_name start end' task s =
     (case GenerateUniqueTaskId now s of
        (task_id, s1) \<Rightarrow>
          (let unique_task_name = unique_name tbb_name task_id in
           case Init env tbb_name s1 of
             (Inl err, s2) \<Rightarrow> (Inl (ConfigParseError err), s2)
           | (Inr None, s2) \<Rightarrow> (Inl NullArena, s2)
           | (Inr (Some a), s2) \<Rightarrow>
               (case parallel_for sched (range_body task tbb_name task_id unique_task_name) None s2 of
                  (Some err, s3) \<Rightarrow> (Inl err, s3)
                | (None, s3) \<Rightarrow> (Inr (), s3))))"

text \<open>
  The second overload, on a \<^verbatim>\<open>tbb::blocked_range<T>\<close>; a range is its pair of bounds and
  a value of \<^verbatim>\<open>T\<close> is its position. The element loop runs while \<^verbatim>\<open>it != sub_range.end()\<close>,
  so it would not end if it started beyond the end: \<open>None\<close> is the loop that never
  returns. Every context is built with the literal 0 as its \<^verbatim>\<open>thread_id\<close>. The callback
  starts with \<^verbatim>\<open>local_contexts.reserve(sub_range.size())\<close>, and the size of a range whose
  end is before its begin is beyond \<^verbatim>\<open>max_size()\<close>: \<^verbatim>\<open>reserve\<close> throws
  \<^verbatim>\<open>std::length_error\<close> before the loop.
\<close>

partial_function (option) iter_loop ::
    "(int \<Rightarrow> 'e option) \<Rightarrow> string \<Rightarrow> 64 word \<Rightarrow> int \<Rightarrow> int \<Rightarrow> ThreadContext list \<Rightarrow> manager
      \<Rightarrow> (('e + ThreadContext list) \<times> manager) option" where
  "iter_loop task tbb_name task_id it e local_contexts s =
     (if it \<noteq> e then
        (case task it of
           Some err \<Rightarrow>
             Some (Inl err, s\<lparr>task_log := task_log s @ [it], events := events s @ [Invoked it]\<rparr>)
         | None \<Rightarrow>
             iter_loop task tbb_name task_id (it + 1) e
               (local_contexts @ [\<lparr>thread_id = 0, task_name = tbb_name, task_instance_id = task_id\<rparr>])
               (s\<lparr>task_log := task_log s @ [it], events := events s @ [Invoked it]\<rparr>))
      else Some (Inr local_contexts, s))"

declare iter_loop.simps [code]

definition sub_range_body ::
    "(int \<Rightarrow> 'e option) \<Rightarrow> string \<Rightarrow> 64 word \<Rightarrow> string \<Rightarrow> int \<times> int \<Rightarrow> manager
      \<Rightarrow> ('e failure option \<times> manager) option" where
  "sub_range_body task tbb_name task_id unique_task_name sub_range s =
     (if snd sub_range - fst sub_range < 0 then Some (Some LengthError, s)
      else
        (case iter_loop task tbb_name task_id (fst sub_range) (snd sub_range) [] s of
           None \<Rightarrow> None
         | Some (Inl err, s') \<Rightarrow> Some (Some (TaskError err), s')
         | Some (Inr local_contexts, s') \<Rightarrow> Some (None, flush unique_task_name local_contexts s')))"

text \<open>The engine again, for a callback that may not return: then the dispatch does not either.\<close>

fun parallel_for_range ::
    "schedule \<Rightarrow> (int \<times> int \<Rightarrow> manager \<Rightarrow> ('err option \<times> manager) option) \<Rightarrow> 'err option
      \<Rightarrow> manager \<Rightarrow> ('err option \<times> manager) option" where
  "parallel_for_range [] body captured s = Some (captured, s)"
| "parallel_for_range ((b, e, in_flight) # rest) body captured s =
     (if captured \<noteq> None \<and> \<not> in_flight then parallel_for_range rest body captured s
      else (case body (b, e) s of
              None \<Rightarrow> None
            | Some (r, s') \<Rightarrow>
                parallel_for_range rest body (if captured = None then r else captured) s'))"

definition ParallelFor_range ::
    "environment \<Rightarrow> 64 word \<Rightarrow> schedule \<Rightarrow> string \<Rightarrow> int \<times> int \<Rightarrow> (int \<Rightarrow> 'e option) \<Rightarrow> manager
      \<Rightarrow> (('e failure + unit) \<times> manager) option" where
  "ParallelFor_range env now sched tbb_name r task s =
     (case GenerateUniqueTaskId now s of
        (task_id, s1) \<Rightarrow>
          (let unique_task_name = unique_name tbb_name task_id in
           case Init env tbb_name s1 of
             (Inl err, s2) \<Rightarrow> Some (Inl (ConfigParseError err), s2)
           | (Inr None, s2) \<Rightarrow> Some (Inl NullArena, s2)
           | (Inr (Some a), s2) \<Rightarrow>
               (case parallel_for_range sched
                       (sub_range_body task tbb_name task_id unique_task_name) None s2 of
                  None \<Rightarrow> None
                | Some (Some err, s3) \<Rightarrow> Some (Inl err, s3)
                | Some (None, s3) \<Rightarrow> Some (Inr (), s3))))"

subsection \<open>Teardown\<close>

definition Release :: "manager \<Rightarrow> manager" where
  "Release s =
     (let s1 = lock_guard arenas_mutex s;
          s2 = lock_guard contexts_mutex s1
      in s2\<lparr>task_arenas := Map.empty, thread_contexts := Map.empty\<rparr>)"

subsection \<open>Notions the properties are stated with\<close>

text \<open>
  The items the loop of \<^verbatim>\<open>InitTBBParallelCountDefines\<close> reads from the flag, in order,
  and the reading of a list of \<open>name:count\<close> entries as the specification words it:
  every entry is a name, a colon and a count.
\<close>

function getline_items :: "string \<Rightarrow> string list" where
  "getline_items ss =
     (case getline ss CHR '','' of None \<Rightarrow> [] | Some (item, ss') \<Rightarrow> item # getline_items ss')"
  by pat_completeness auto
termination
  by (relation "measure length") (auto dest: getline_shorter)

declare getline_items.simps [simp del]

definition has_separator :: "string \<Rightarrow> bool" where
  "has_separator item \<longleftrightarrow> CHR '':'' \<in> set item"

definition entry_name :: "string \<Rightarrow> string" where
  "entry_name item = takeWhile (\<lambda>c. c \<noteq> CHR '':'') item"

definition entry_count :: "string \<Rightarrow> string" where
  "entry_count item = drop 1 (dropWhile (\<lambda>c. c \<noteq> CHR '':'') item)"

fun resolve_entries :: "string list \<Rightarrow> (string \<rightharpoonup> int) \<Rightarrow> stoi_error + (string \<rightharpoonup> int)" where
  "resolve_entries [] defs = Inr defs"
| "resolve_entries (item # items) defs =
     (case stoi (entry_count item) of
        Inl err \<Rightarrow> Inl err
      | Inr c \<Rightarrow> resolve_entries items (defs(entry_name item \<mapsto> c)))"

text \<open>
  A run of calls of \<^verbatim>\<open>GenerateUniqueTaskId\<close>, one per clock reading, and the 32 bits of
  a reading that the id keeps.
\<close>

fun issue_ids :: "64 word list \<Rightarrow> manager \<Rightarrow> 64 word list \<times> manager" where
  "issue_ids [] s = ([], s)"
| "issue_ids (now # nows) s =
     (case GenerateUniqueTaskId now s of
        (task_id, s') \<Rightarrow> (case issue_ids nows s' of (ids, s'') \<Rightarrow> (task_id # ids, s'')))"

definition truncated :: "64 word \<Rightarrow> 32 word" where
  "truncated now = ucast now"

text \<open>\<open>n\<close> calls of \<^verbatim>\<open>Init\<close> for one name, one after the other: their results and the last state.\<close>

fun Init_repeat ::
    "environment \<Rightarrow> string \<Rightarrow> nat \<Rightarrow> manager \<Rightarrow> (stoi_error + task_arena option) list \<times> manager" where
  "Init_repeat env tbb_name 0 s = ([], s)"
| "Init_repeat env tbb_name (Suc n) s =
     (case Init env tbb_name s of
        (r, s') \<Rightarrow> (case Init_repeat env tbb_name n s' of (rs, s'') \<Rightarrow> (r # rs, s'')))"

text \<open>
  Every arena in the registry was constructed by the manager: its serial number is below
  the count of constructions. The empty manager has the property, and \<^verbatim>\<open>Init\<close>,
  \<^verbatim>\<open>Release\<close> and \<^verbatim>\<open>ParallelFor\<close> keep it.
\<close>

definition serials_below :: "manager \<Rightarrow> bool" where
  "serials_below s \<longleftrightarrow>
     (\<forall>tbb_name state a. task_arenas s tbb_name = Some state \<and> arena state = Some a \<longrightarrow>
        arena_serial a < arenas_constructed s)"

text \<open>The arena that \<^verbatim>\<open>Init\<close> constructs, and the state it leaves after constructing it.\<close>

definition constructed ::
    "environment \<Rightarrow> string \<Rightarrow> (string \<rightharpoonup> int) \<Rightarrow> manager \<Rightarrow> task_arena" where
  "constructed env tbb_name defs s =
     \<lparr>arena_serial = arenas_constructed s,
      max_concurrency = (case defs tbb_name of None \<Rightarrow> this_task_arena_max_concurrency env | Some c \<Rightarrow> c)\<rparr>"

definition constructed_state ::
    "environment \<Rightarrow> string \<Rightarrow> (string \<rightharpoonup> int) \<Rightarrow> manager \<Rightarrow> manager" where
  "constructed_state env tbb_name defs s =
     s\<lparr>lock_log := lock_log s @ [arenas_mutex, arenas_mutex],
        events := events s @ [Acquired arenas_mutex, Acquired arenas_mutex],
        task_arenas := (task_arenas s)(tbb_name \<mapsto>
            \<lparr>arena = Some (constructed env tbb_name defs s), initialized = True\<rparr>),
        count_defines := Some defs,
        arenas_constructed := Suc (arenas_constructed s)\<rparr>"

text \<open>An environment and a state to try the theorems on.\<close>

definition env_x3 :: environment where
  "env_x3 = \<lparr>FLAGS_custom_tbb_parallel_control = ''x:3'', this_task_arena_max_concurrency = 8\<rparr>"

definition manager_x :: manager where
  "manager_x = snd (Init env_x3 ''x'' new_manager)"

text \<open>
  The contexts the first overload builds for a list of elements, the queue of a task
  instance (empty when the map has no entry), and a map of queues after a flush.
\<close>

definition contexts_of :: "string \<Rightarrow> 64 word \<Rightarrow> int list \<Rightarrow> ThreadContext list" where
  "contexts_of tbb_name task_id xs =
     map (\<lambda>i. \<lparr>thread_id = static_cast_int i, task_name = tbb_name, task_instance_id = task_id\<rparr>) xs"

definition queue_of :: "manager \<Rightarrow> string \<Rightarrow> ThreadContext list" where
  "queue_of s unique_task_name =
     (case thread_contexts s unique_task_name of None \<Rightarrow> [] | Some q \<Rightarrow> q)"

definition pushed ::
    "string \<Rightarrow> ThreadContext list \<Rightarrow> (string \<rightharpoonup> ThreadContext list) \<Rightarrow> (string \<rightharpoonup> ThreadContext list)" where
  "pushed unique_task_name cs m =
     (if cs = [] then m
      else m(unique_task_name \<mapsto> (case m unique_task_name of None \<Rightarrow> [] | Some q \<Rightarrow> q) @ cs))"

text \<open>
  What a schedule does under a task, read off the schedule alone. For one sub-range: the
  first element on which the task throws, the error its callback ends with, and the steps
  the callback takes (the task on each element up to the first that throws; the lock
  after the last element, if none has thrown and there was one). For the schedule: the
  sub-ranges whose callbacks are started (\<open>failed\<close>: a callback has thrown before), those
  whose callbacks run to their flush, and the error the dispatch ends with.
\<close>

definition raising :: "(int \<Rightarrow> 'e option) \<Rightarrow> int \<times> int \<times> bool \<Rightarrow> int option" where
  "raising task sub = find (\<lambda>i. task i \<noteq> None) (sub_elems sub)"

definition sub_error :: "(int \<Rightarrow> 'e option) \<Rightarrow> int \<times> int \<times> bool \<Rightarrow> 'e failure option" where
  "sub_error task sub =
     (if fst (snd sub) < fst sub then Some LengthError
      else (case raising task sub of None \<Rightarrow> None | Some k \<Rightarrow> map_option TaskError (task k)))"

definition sub_events :: "(int \<Rightarrow> 'e option) \<Rightarrow> int \<times> int \<times> bool \<Rightarrow> event list" where
  "sub_events task sub =
     (case raising task sub of
        None \<Rightarrow>
          map Invoked (sub_elems sub) @
            (if sub_elems sub = [] then [] else [Acquired contexts_mutex])
      | Some k \<Rightarrow> map Invoked [fst sub..k])"

fun started_subs :: "(int \<Rightarrow> 'e option) \<Rightarrow> schedule \<Rightarrow> bool \<Rightarrow> schedule" where
  "started_subs task [] failed = []"
| "started_subs task (sub # rest) failed =
     (if failed \<and> \<not> snd (snd sub) then started_subs task rest failed
      else sub # started_subs task rest (failed \<or> sub_error task sub \<noteq> None))"

fun flushed_subs :: "(int \<Rightarrow> 'e option) \<Rightarrow> schedule \<Rightarrow> bool \<Rightarrow> schedule" where
  "flushed_subs task [] failed = []"
| "flushed_subs task (sub # rest) failed =
     (if failed \<and> \<not> snd (snd sub) then flushed_subs task rest failed
      else if sub_error task sub \<noteq> None then flushed_subs task rest True
      else sub # flushed_subs task rest failed)"

fun first_error :: "(int \<Rightarrow> 'e option) \<Rightarrow> schedule \<Rightarrow> 'e failure option" where
  "first_error task [] = None"
| "first_error task (sub # rest) =
     (case sub_error task sub of None \<Rightarrow> first_error task rest | Some err \<Rightarrow> Some err)"

text \<open>How often a mutex has been acquired.\<close>

definition acquisitions :: "mutex \<Rightarrow> manager \<Rightarrow> nat" where
  "acquisitions m s = length (filter (\<lambda>x. x = m) (lock_log s))"

text \<open>
  The id and the task-instance name that a call of \<^verbatim>\<open>ParallelFor\<close> made in state \<open>s\<close> at
  clock reading \<open>now\<close> uses.
\<close>

definition next_task_id :: "64 word \<Rightarrow> manager \<Rightarrow> 64 word" where
  "next_task_id now s = fst (GenerateUniqueTaskId now s)"

definition instance_name :: "64 word \<Rightarrow> string \<Rightarrow> manager \<Rightarrow> string" where
  "instance_name now tbb_name s = unique_name tbb_name (next_task_id now s)"

text \<open>The state in which the engine starts: the id has been taken and \<^verbatim>\<open>Init\<close> has run.\<close>

definition dispatched :: "environment \<Rightarrow> 64 word \<Rightarrow> string \<Rightarrow> manager \<Rightarrow> manager" where
  "dispatched env now tbb_name s = snd (Init env tbb_name (snd (GenerateUniqueTaskId now s)))"

text \<open>The context the second overload builds for every element.\<close>

definition zero_context :: "string \<Rightarrow> 64 word \<Rightarrow> ThreadContext" where
  "zero_context tbb_name task_id =
     \<lparr>thread_id = 0, task_name = tbb_name, task_instance_id = task_id\<rparr>"

text \<open>The elements of a schedule, in its order.\<close>

definition elems :: "schedule \<Rightarrow> int list" where
  "elems sched = concat (map sub_elems sched)"

text \<open>A task that throws on element 500 only.\<close>

definition fails_at_500 :: "int \<Rightarrow> unit option" where
  "fails_at_500 i = (if i = 500 then Some () else None)"

text \<open>A task that throws on no element.\<close>

definition never_fails :: "int \<Rightarrow> unit option" where
  "never_fails i = None"

text \<open>
  Every queue is kept under a name that \<^verbatim>\<open>ParallelFor\<close> has synthesized from an id whose
  counter part is below the counter: the id was issued before. The empty manager has the
  property; \<^verbatim>\<open>Init\<close>, \<^verbatim>\<open>GetTBBParallelCountDefines\<close> and \<^verbatim>\<open>Release\<close> keep it, and both
  overloads of \<^verbatim>\<open>ParallelFor\<close> keep it as long as the counter does not wrap round. In a
  state that has it, no queue is under the name the next call of \<^verbatim>\<open>ParallelFor\<close> makes.
\<close>

definition names_issued :: "manager \<Rightarrow> bool" where
  "names_issued s \<longleftrightarrow>
     (\<forall>key. thread_contexts s key \<noteq> None \<longrightarrow>
        (\<exists>tbb_name task_id. key = unique_name tbb_name task_id \<and>
           (ucast task_id :: 32 word) < global_counter s))"

text \<open>A task that throws on every element.\<close>

definition always_fails :: "int \<Rightarrow> unit option" where
  "always_fails i = Some ()"

text \<open>The state after the task has been called on the elements \<open>xs\<close>, in this order.\<close>

definition after_calls :: "int list \<Rightarrow> manager \<Rightarrow> manager" where
  "after_calls xs s = s\<lparr>task_log := task_log s @ xs, events := events s @ map Invoked xs\<rparr>"

text \<open>A state in which a dispatch has left a queue: the empty manager after one call.\<close>

definition manager_busy :: manager where
  "manager_busy = snd (ParallelFor env_x3 0 [(0, 2, True)] ''x'' 0 2 never_fails new_manager)"

section \<open>Configuration resolution\<close>

lemmas config_eval = InitTBBParallelCountDefines_def getline_loop.simps getline_def find_char_def
  stoi_def isspace_def isdigit_def digits_value_def

lemma find_char_None: "find_char item ch = None \<longleftrightarrow> ch \<notin> set item"
  by (simp add: find_char_def)

lemma find_char_Some:
  assumes "find_char item ch = Some pos"
  shows "take pos item = takeWhile (\<lambda>c. c \<noteq> ch) item"
    and "drop (pos + 1) item = drop 1 (dropWhile (\<lambda>c. c \<noteq> ch) item)"
    and "ch \<in> set item"
proof -
  from assms have m: "ch \<in> set item" and p: "pos = length (takeWhile (\<lambda>c. c \<noteq> ch) item)"
    by (auto simp: find_char_def split: if_splits)
  show "ch \<in> set item" by (rule m)
  have "take pos item = take pos (takeWhile (\<lambda>c. c \<noteq> ch) item @ dropWhile (\<lambda>c. c \<noteq> ch) item)"
    by simp
  then show "take pos item = takeWhile (\<lambda>c. c \<noteq> ch) item"
    unfolding p by (simp del: takeWhile_dropWhile_id)
  have "drop pos item = drop pos (takeWhile (\<lambda>c. c \<noteq> ch) item @ dropWhile (\<lambda>c. c \<noteq> ch) item)"
    by simp
  then have "drop pos item = dropWhile (\<lambda>c. c \<noteq> ch) item"
    unfolding p by (simp del: takeWhile_dropWhile_id)
  then show "drop (pos + 1) item = drop 1 (dropWhile (\<lambda>c. c \<noteq> ch) item)"
    by (metis drop_drop add.commute)
qed

lemma getline_loop_resolve:
  "getline_loop ss defs = resolve_entries (filter has_separator (getline_items ss)) defs"
proof (induction ss defs rule: getline_loop.induct)
  case (1 ss defs)
  show ?case
  proof (cases "getline ss CHR '',''")
    case None
    then show ?thesis
      by (simp add: getline_loop.simps [of ss] getline_items.simps [of ss])
  next
    case (Some p)
    then obtain item ss' where g: "getline ss CHR '','' = Some (item, ss')"
      by (cases p) simp
    show ?thesis
    proof (cases "find_char item CHR '':''")
      case None
      then have ns: "\<not> has_separator item"
        by (simp add: find_char_None has_separator_def)
      have "getline_loop ss' defs = resolve_entries (filter has_separator (getline_items ss')) defs"
        using g None by (rule "1.IH"(1) [OF _ refl])
      with g None ns show ?thesis
        by (simp add: getline_loop.simps [of ss] getline_items.simps [of ss])
    next
      case (Some pos)
      note fc = find_char_Some [OF Some]
      have hs: "has_separator item" using fc(3) by (simp add: has_separator_def)
      show ?thesis
      proof (cases "stoi (drop (pos + 1) item)")
        case (Inl err)
        with Some g hs fc(1,2) show ?thesis
          by (simp add: getline_loop.simps [of ss] getline_items.simps [of ss]
              entry_count_def entry_name_def)
      next
        case (Inr c)
        have "getline_loop ss' (defs(take pos item \<mapsto> c)) =
          resolve_entries (filter has_separator (getline_items ss')) (defs(take pos item \<mapsto> c))"
          using g Some Inr by (rule "1.IH"(2) [OF _ refl])
        with Some g hs fc(1,2) Inr show ?thesis
          by (simp add: getline_loop.simps [of ss] getline_items.simps [of ss]
              entry_count_def entry_name_def)
      qed
    qed
  qed
qed

lemma resolve_entries_fails:
  "item \<in> set items \<Longrightarrow> stoi (entry_count item) = Inl err \<Longrightarrow>
     \<exists>err'. resolve_entries items defs = Inl err'"
  by (induction items arbitrary: defs) (auto split: sum.splits)

lemma getline_items_Nil: "getline_items [] = []"
  by (simp add: getline_items.simps getline_def)

text \<open>
  Claim C4. Resolving \<^verbatim>\<open>a:2,b:4\<close> gives the mapping of \<open>a\<close> to 2 and \<open>b\<close> to 4, resolving the
  empty string gives the empty mapping, and resolving \<^verbatim>\<open>a:2,bad\<close> gives the mapping of
  \<open>a\<close> to 2: the entry without a colon is skipped without an error.
\<close>

theorem config_round_trip:
  "InitTBBParallelCountDefines ''a:2,b:4'' = Inr [''a'' \<mapsto> 2, ''b'' \<mapsto> 4] \<and>
   InitTBBParallelCountDefines '''' = Inr Map.empty \<and>
   InitTBBParallelCountDefines ''a:2,bad'' = Inr [''a'' \<mapsto> 2]"
  by (simp add: config_eval)

text \<open>
  Claim C5, as amended. The result of the resolution is the reading of the entries that
  have a colon, so an entry without one changes neither the mapping nor the outcome.
  An entry with a colon whose count \<^verbatim>\<open>std::stoi\<close> rejects (no digit after optional white
  space and sign, or a value outside \<^verbatim>\<open>int\<close>) makes the whole resolution fail, and no
  mapping is returned. A count that starts with an integer and goes on with other
  characters is not rejected: it counts as that integer.
\<close>

theorem config_entries:
  "InitTBBParallelCountDefines flag =
     resolve_entries (filter has_separator (getline_items flag)) Map.empty \<and>
   (\<forall>item \<in> set (getline_items flag). \<forall>err.
      has_separator item \<and> stoi (entry_count item) = Inl err \<longrightarrow>
        (\<exists>err'. InitTBBParallelCountDefines flag = Inl err'))"
proof
  show eq: "InitTBBParallelCountDefines flag =
     resolve_entries (filter has_separator (getline_items flag)) Map.empty"
    by (simp add: InitTBBParallelCountDefines_def getline_loop_resolve getline_items_Nil)
  show "\<forall>item \<in> set (getline_items flag). \<forall>err.
      has_separator item \<and> stoi (entry_count item) = Inl err \<longrightarrow>
        (\<exists>err'. InitTBBParallelCountDefines flag = Inl err')"
  proof (intro ballI allI impI)
    fix item err
    assume "item \<in> set (getline_items flag)"
      and "has_separator item \<and> stoi (entry_count item) = Inl err"
    then have "item \<in> set (filter has_separator (getline_items flag))"
      and "stoi (entry_count item) = Inl err"
      by simp_all
    then show "\<exists>err'. InitTBBParallelCountDefines flag = Inl err'"
      unfolding eq by (rule resolve_entries_fails)
  qed
qed

lemma items_ex: "getline_items ''a:2,bad,b:x'' = [''a:2'', ''bad'', ''b:x'']"
  by (simp add: getline_items.simps getline_def)

theorem config_entries_witness:
  "''b:x'' \<in> set (getline_items ''a:2,bad,b:x'') \<and> has_separator ''b:x'' \<and>
   stoi (entry_count ''b:x'') = Inl invalid_argument \<and>
   filter has_separator (getline_items ''a:2,bad,b:x'') = [''a:2'', ''b:x''] \<and>
   (\<exists>err'. InitTBBParallelCountDefines ''a:2,bad,b:x'' = Inl err')"
proof -
  have m: "''b:x'' \<in> set (getline_items ''a:2,bad,b:x'')"
    by (simp add: items_ex)
  have h: "has_separator ''b:x'' \<and> stoi (entry_count ''b:x'') = Inl invalid_argument"
    by (simp add: has_separator_def entry_count_def stoi_def isspace_def isdigit_def)
  have f: "filter has_separator (getline_items ''a:2,bad,b:x'') = [''a:2'', ''b:x'']"
    by (simp add: items_ex has_separator_def)
  from config_entries [of "''a:2,bad,b:x''"] m h
  have "\<exists>err'. InitTBBParallelCountDefines ''a:2,bad,b:x'' = Inl err'"
    by blast
  with m h f show ?thesis by blast
qed

text \<open>
  The count \<^verbatim>\<open>1.5\<close> is not an integer, and the resolution of \<^verbatim>\<open>a:1.5\<close> does not fail: it
  maps \<open>a\<close> to 1.
\<close>

theorem config_prefix_counterexample:
  "InitTBBParallelCountDefines ''a:1.5'' = Inr [''a'' \<mapsto> 1]"
  by (simp add: config_eval)

section \<open>Task ids\<close>

lemma low_mask: "(0xFFFFFFFF :: 64 word) = mask 32"
  by (simp add: mask_eq_exp_minus_1)

lemma task_id_low: "(ucast (fst (GenerateUniqueTaskId now s)) :: 32 word) = global_counter s"
  unfolding GenerateUniqueTaskId_def Let_def low_mask
  by (rule bit_word_eqI) (auto simp: bit_simps)

lemma task_id_high:
  "(ucast (drop_bit 32 (fst (GenerateUniqueTaskId now s))) :: 32 word) = truncated now"
  unfolding GenerateUniqueTaskId_def Let_def low_mask truncated_def
  by (rule bit_word_eqI) (auto simp: bit_simps)

lemma task_id_eq:
  "fst (GenerateUniqueTaskId now s) =
     push_bit 32 (ucast (truncated now)) OR ucast (global_counter s)"
  unfolding GenerateUniqueTaskId_def Let_def low_mask truncated_def
  by (rule bit_word_eqI) (auto simp: bit_simps dest: bit_imp_le_length)

lemma task_id_counter: "global_counter (snd (GenerateUniqueTaskId now s)) = global_counter s + 1"
  by (simp add: GenerateUniqueTaskId_def Let_def)

lemma task_id_eq_iff:
  "fst (GenerateUniqueTaskId now s) = fst (GenerateUniqueTaskId now' s') \<longleftrightarrow>
     truncated now = truncated now' \<and> global_counter s = global_counter s'"
proof
  assume "fst (GenerateUniqueTaskId now s) = fst (GenerateUniqueTaskId now' s')"
  then show "truncated now = truncated now' \<and> global_counter s = global_counter s'"
    by (metis task_id_low task_id_high)
next
  assume "truncated now = truncated now' \<and> global_counter s = global_counter s'"
  then show "fst (GenerateUniqueTaskId now s) = fst (GenerateUniqueTaskId now' s')"
    by (simp add: task_id_eq)
qed

lemma issue_ids_nth:
  "k < length nows \<Longrightarrow>
     fst (issue_ids nows s) ! k =
       fst (GenerateUniqueTaskId (nows ! k) (s\<lparr>global_counter := global_counter s + of_nat k\<rparr>))"
proof (induction nows arbitrary: s k)
  case Nil
  then show ?case by simp
next
  case (Cons now nows)
  show ?case
  proof (cases k)
    case 0
    then show ?thesis by (simp split: prod.splits)
  next
    case (Suc k')
    with Cons.prems have k': "k' < length nows" by simp
    obtain task_id s' where g: "GenerateUniqueTaskId now s = (task_id, s')"
      by (cases "GenerateUniqueTaskId now s")
    then have s': "s' = s\<lparr>global_counter := global_counter s + 1\<rparr>"
      by (simp add: GenerateUniqueTaskId_def Let_def)
    have "fst (issue_ids (now # nows) s) ! k = fst (issue_ids nows s') ! k'"
      using g Suc by (simp split: prod.splits)
    also have "\<dots> = fst (GenerateUniqueTaskId (nows ! k')
        (s'\<lparr>global_counter := global_counter s' + of_nat k'\<rparr>))"
      by (rule Cons.IH [OF k'])
    finally show ?thesis
      using Suc by (simp add: s' add.assoc)
  qed
qed

lemma counters_differ:
  assumes "i < j" and "j - i < 2 ^ 32"
  shows "(c :: 32 word) + of_nat i \<noteq> c + of_nat j"
proof
  assume "c + of_nat i = c + of_nat j"
  then have "(of_nat i :: 32 word) = of_nat j" by simp
  then have "(of_nat (j - i) :: 32 word) = 0"
    using assms(1) by simp
  then have "take_bit 32 (j - i) = 0"
    by (simp add: word_of_nat_eq_0_iff take_bit_eq_0_iff)
  with assms show False
    by (simp add: take_bit_nat_eq_self)
qed

text \<open>
  Claim C7. The id is the clock reading truncated to 32 bits in the high half and the
  counter in the low half, and the call increments the counter. Two calls whose counter
  values differ return different ids. In a run of calls from any state, with any clock
  readings, the ids of two calls are different unless their truncated readings collide
  and the counter has wrapped all the way round between them (2^32 or more calls apart).
\<close>

theorem task_ids_distinct:
  "fst (GenerateUniqueTaskId now s) =
     push_bit 32 (ucast (truncated now)) OR ucast (global_counter s) \<and>
   ucast (drop_bit 32 (fst (GenerateUniqueTaskId now s))) = truncated now \<and>
   ucast (fst (GenerateUniqueTaskId now s)) = global_counter s \<and>
   global_counter (snd (GenerateUniqueTaskId now s)) = global_counter s + 1 \<and>
   (global_counter s \<noteq> global_counter s' \<longrightarrow>
      fst (GenerateUniqueTaskId now s) \<noteq> fst (GenerateUniqueTaskId now' s')) \<and>
   (\<forall>i j. i < j \<and> j < length nows \<and>
      (j - i < 2 ^ 32 \<or> truncated (nows ! i) \<noteq> truncated (nows ! j)) \<longrightarrow>
      fst (issue_ids nows s) ! i \<noteq> fst (issue_ids nows s) ! j)"
proof (intro conjI allI impI)
  show "fst (GenerateUniqueTaskId now s) =
     push_bit 32 (ucast (truncated now)) OR ucast (global_counter s)"
    by (rule task_id_eq)
  show "ucast (drop_bit 32 (fst (GenerateUniqueTaskId now s))) = truncated now"
    by (rule task_id_high)
  show "ucast (fst (GenerateUniqueTaskId now s)) = global_counter s"
    by (rule task_id_low)
  show "global_counter (snd (GenerateUniqueTaskId now s)) = global_counter s + 1"
    by (rule task_id_counter)
  show "fst (GenerateUniqueTaskId now s) \<noteq> fst (GenerateUniqueTaskId now' s')"
    if "global_counter s \<noteq> global_counter s'"
    using that by (simp add: task_id_eq_iff)
next
  fix i j
  assume a: "i < j \<and> j < length nows \<and>
      (j - i < 2 ^ 32 \<or> truncated (nows ! i) \<noteq> truncated (nows ! j))"
  then have i: "i < length nows" and j: "j < length nows" by simp_all
  from a have "truncated (nows ! i) \<noteq> truncated (nows ! j) \<or>
      global_counter s + of_nat i \<noteq> global_counter s + of_nat j"
    using counters_differ [of i j "global_counter s"] by blast
  then show "fst (issue_ids nows s) ! i \<noteq> fst (issue_ids nows s) ! j"
    by (simp add: issue_ids_nth [OF i] issue_ids_nth [OF j] task_id_eq_iff)
qed

theorem task_ids_distinct_witness:
  "global_counter new_manager \<noteq> global_counter (new_manager\<lparr>global_counter := 1\<rparr>) \<and>
   fst (GenerateUniqueTaskId 7 new_manager) \<noteq>
     fst (GenerateUniqueTaskId 7 (new_manager\<lparr>global_counter := 1\<rparr>)) \<and>
   (0 :: nat) < 2 \<and> 2 < length [5, 5, 0x100000005 :: 64 word] \<and> (2 :: nat) - 0 < 2 ^ 32 \<and>
   fst (issue_ids [5, 5, 0x100000005] new_manager) ! 0 \<noteq>
     fst (issue_ids [5, 5, 0x100000005] new_manager) ! 2"
proof -
  have c: "global_counter new_manager \<noteq> global_counter (new_manager\<lparr>global_counter := 1\<rparr>)"
    by (simp add: new_manager_def)
  have h: "(0 :: nat) < 2 \<and> 2 < length [5, 5, 0x100000005 :: 64 word] \<and>
      ((2 :: nat) - 0 < 2 ^ 32 \<or>
       truncated ([5, 5, 0x100000005] ! 0) \<noteq> truncated ([5, 5, 0x100000005] ! 2))"
    by simp
  note t = task_ids_distinct [of 7 new_manager "new_manager\<lparr>global_counter := 1\<rparr>" 7
      "[5, 5, 0x100000005]"]
  from t c have "fst (GenerateUniqueTaskId 7 new_manager) \<noteq>
     fst (GenerateUniqueTaskId 7 (new_manager\<lparr>global_counter := 1\<rparr>))"
    by blast
  moreover from t h have "fst (issue_ids [5, 5, 0x100000005] new_manager) ! 0 \<noteq>
     fst (issue_ids [5, 5, 0x100000005] new_manager) ! 2"
    by blast
  ultimately show ?thesis using c by simp
qed

section \<open>The arena registry and teardown\<close>

lemma find_initialized_lock_log [simp]:
  "find_initialized (s\<lparr>lock_log := l\<rparr>) tbb_name = find_initialized s tbb_name"
  by (simp add: find_initialized_def)

lemma find_initialized_events [simp]:
  "find_initialized (s\<lparr>events := l\<rparr>) tbb_name = find_initialized s tbb_name"
  by (simp add: find_initialized_def)

lemma find_initialized_lock [simp]:
  "find_initialized (lock_guard m s) tbb_name = find_initialized s tbb_name"
  by (simp add: lock_guard_def)

lemma GetTBBParallelCountDefines_lock_log [simp]:
  "GetTBBParallelCountDefines env (s\<lparr>lock_log := l\<rparr>) =
     (fst (GetTBBParallelCountDefines env s),
      (snd (GetTBBParallelCountDefines env s))\<lparr>lock_log := l\<rparr>)"
  by (simp add: GetTBBParallelCountDefines_def split: option.splits sum.splits)

lemma GetTBBParallelCountDefines_events [simp]:
  "GetTBBParallelCountDefines env (s\<lparr>events := l\<rparr>) =
     (fst (GetTBBParallelCountDefines env s),
      (snd (GetTBBParallelCountDefines env s))\<lparr>events := l\<rparr>)"
  by (simp add: GetTBBParallelCountDefines_def split: option.splits sum.splits)

lemma Get_defines_cases:
  "fst (GetTBBParallelCountDefines env s) = Inr defs \<Longrightarrow>
     GetTBBParallelCountDefines env s = (Inr defs, s\<lparr>count_defines := Some defs\<rparr>)"
  by (auto simp: GetTBBParallelCountDefines_def split: option.splits sum.splits)

lemma Init_found:
  "find_initialized s tbb_name = Some a \<Longrightarrow>
     Init env tbb_name s = (Inr a, lock_guard arenas_mutex s)"
  by (simp add: Init_def Let_def)

lemma Init_write_found:
  "find_initialized s tbb_name = Some a \<Longrightarrow>
     Init_write env tbb_name s = (Inr a, lock_guard arenas_mutex s)"
  by (simp add: Init_write_def Let_def)

lemma Get_defines_fails:
  "fst (GetTBBParallelCountDefines env s) = Inl err \<Longrightarrow>
     GetTBBParallelCountDefines env s = (Inl err, s)"
  by (auto simp: GetTBBParallelCountDefines_def split: option.splits sum.splits)

lemma Init_write_eq:
  "Init_write env tbb_name s =
     (case find_initialized s tbb_name of
        Some a \<Rightarrow> (Inr a, lock_guard arenas_mutex s)
      | None \<Rightarrow>
          (case fst (GetTBBParallelCountDefines env s) of
             Inl err \<Rightarrow> (Inl err, lock_guard arenas_mutex s)
           | Inr defs \<Rightarrow>
               (Inr (Some (constructed env tbb_name defs s)),
                (lock_guard arenas_mutex s)
                  \<lparr>task_arenas := (task_arenas s)(tbb_name \<mapsto>
                      \<lparr>arena = Some (constructed env tbb_name defs s), initialized = True\<rparr>),
                   count_defines := Some defs,
                   arenas_constructed := Suc (arenas_constructed s)\<rparr>)))"
proof (cases "find_initialized s tbb_name")
  case (Some a)
  then show ?thesis by (simp add: Init_write_def Let_def)
next
  case None
  show ?thesis
  proof (cases "fst (GetTBBParallelCountDefines env s)")
    case (Inl err)
    with None Get_defines_fails [OF Inl] show ?thesis
      by (simp add: Init_write_def Init_construct_def Let_def lock_guard_def)
  next
    case (Inr defs)
    with None Get_defines_cases [OF Inr] show ?thesis
      by (simp add: Init_write_def Init_construct_def Let_def constructed_def lock_guard_def)
  qed
qed

lemma Init_eq:
  "Init env tbb_name s =
     (case find_initialized s tbb_name of
        Some a \<Rightarrow> (Inr a, lock_guard arenas_mutex s)
      | None \<Rightarrow>
          (case fst (GetTBBParallelCountDefines env s) of
             Inl err \<Rightarrow>
               (Inl err, lock_guard arenas_mutex (lock_guard arenas_mutex s))
           | Inr defs \<Rightarrow>
               (Inr (Some (constructed env tbb_name defs s)),
                constructed_state env tbb_name defs s)))"
proof (cases "find_initialized s tbb_name")
  case (Some a)
  then show ?thesis by (simp add: Init_def Let_def)
next
  case None
  then have "Init env tbb_name s = Init_write env tbb_name (lock_guard arenas_mutex s)"
    by (simp add: Init_def Let_def)
  with None show ?thesis
    by (simp add: Init_write_eq)
      (simp add: constructed_state_def constructed_def lock_guard_def split: sum.splits)
qed

lemma Init_fresh:
  assumes "find_initialized s tbb_name = None"
    and "fst (GetTBBParallelCountDefines env s) = Inr defs"
  shows "Init env tbb_name s =
     (Inr (Some (constructed env tbb_name defs s)), constructed_state env tbb_name defs s)"
  using assms by (simp add: Init_eq)

lemma constructed_state_fields:
  "task_arenas (constructed_state env tbb_name defs s) =
     (task_arenas s)(tbb_name \<mapsto>
        \<lparr>arena = Some (constructed env tbb_name defs s), initialized = True\<rparr>)"
  "thread_contexts (constructed_state env tbb_name defs s) = thread_contexts s"
  "global_counter (constructed_state env tbb_name defs s) = global_counter s"
  "count_defines (constructed_state env tbb_name defs s) = Some defs"
  "arenas_constructed (constructed_state env tbb_name defs s) = Suc (arenas_constructed s)"
  "lock_log (constructed_state env tbb_name defs s) = lock_log s @ [arenas_mutex, arenas_mutex]"
  "task_log (constructed_state env tbb_name defs s) = task_log s"
  by (simp_all add: constructed_state_def)

lemma lock_guard_fields:
  "task_arenas (lock_guard m s) = task_arenas s"
  "thread_contexts (lock_guard m s) = thread_contexts s"
  "global_counter (lock_guard m s) = global_counter s"
  "count_defines (lock_guard m s) = count_defines s"
  "arenas_constructed (lock_guard m s) = arenas_constructed s"
  "lock_log (lock_guard m s) = lock_log s @ [m]"
  "task_log (lock_guard m s) = task_log s"
  by (simp_all add: lock_guard_def)

lemma Init_returns_initialized:
  assumes "Init env tbb_name s = (Inr h, s1)"
  shows "find_initialized s1 tbb_name = Some h"
  using assms
  by (auto simp: Init_eq find_initialized_def constructed_state_fields lock_guard_fields
      split: option.splits sum.splits if_splits)

lemma Init_repeat_found:
  "find_initialized s1 tbb_name = Some h \<Longrightarrow>
     fst (Init_repeat env tbb_name n s1) = replicate n (Inr h) \<and>
     task_arenas (snd (Init_repeat env tbb_name n s1)) = task_arenas s1 \<and>
     thread_contexts (snd (Init_repeat env tbb_name n s1)) = thread_contexts s1 \<and>
     arenas_constructed (snd (Init_repeat env tbb_name n s1)) = arenas_constructed s1"
proof (induction n arbitrary: s1)
  case 0
  then show ?case by simp
next
  case (Suc n)
  have f: "find_initialized (lock_guard arenas_mutex s1) tbb_name = Some h"
    using Suc.prems by simp
  have "Init_repeat env tbb_name (Suc n) s1 =
      (Inr h # fst (Init_repeat env tbb_name n (lock_guard arenas_mutex s1)),
       snd (Init_repeat env tbb_name n (lock_guard arenas_mutex s1)))"
    by (simp add: Init_found [OF Suc.prems] case_prod_beta)
  with Suc.IH [OF f] show ?case
    by (simp add: lock_guard_fields)
qed

lemma Init_constructs:
  assumes "Init env tbb_name s = (Inr h, s1)"
  shows "arenas_constructed s1 =
     (if find_initialized s tbb_name = None then Suc (arenas_constructed s)
      else arenas_constructed s)"
  using assms
  by (auto simp: Init_eq constructed_state_fields lock_guard_fields
      split: option.splits sum.splits)

text \<open>
  Claim C3. When a call of \<^verbatim>\<open>Init\<close> for a name has returned a handle, every later call for
  that name returns the same handle (same arena, by its serial number), leaves the
  registry as it is and constructs nothing; the first call constructed one arena if the
  name had no initialized entry and none otherwise. The second critical section alone,
  entered after another caller has finished the initialization, also returns that handle
  and constructs nothing.
\<close>

theorem Init_idempotent:
  assumes "Init env tbb_name s = (Inr h, s1)"
  shows "fst (Init_repeat env tbb_name n s1) = replicate n (Inr h) \<and>
     task_arenas (snd (Init_repeat env tbb_name n s1)) = task_arenas s1 \<and>
     arenas_constructed (snd (Init_repeat env tbb_name n s1)) = arenas_constructed s1 \<and>
     arenas_constructed s1 =
       (if find_initialized s tbb_name = None then Suc (arenas_constructed s)
        else arenas_constructed s) \<and>
     fst (Init_write env tbb_name s1) = Inr h \<and>
     arenas_constructed (snd (Init_write env tbb_name s1)) = arenas_constructed s1"
proof -
  note f = Init_returns_initialized [OF assms]
  from Init_repeat_found [OF f, of env n] Init_constructs [OF assms]
    Init_write_found [OF f, of env]
  show ?thesis by (simp add: lock_guard_fields)
qed

text \<open>
  Claim C6. When the name has no initialized entry and the configuration is resolved
  (cached, or read from the flag now), \<^verbatim>\<open>Init\<close> returns a new arena whose concurrency is
  the mapping's count for the name if it has one and the engine's default otherwise; the
  entry holding it is in the registry, marked initialized, one more arena has been
  constructed, and the mapping is cached.
\<close>

theorem Init_concurrency:
  assumes "find_initialized s tbb_name = None"
    and "fst (GetTBBParallelCountDefines env s) = Inr defs"
  shows "\<exists>a s'. Init env tbb_name s = (Inr (Some a), s') \<and>
     max_concurrency a =
       (case defs tbb_name of None \<Rightarrow> this_task_arena_max_concurrency env | Some c \<Rightarrow> c) \<and>
     task_arenas s' tbb_name = Some \<lparr>arena = Some a, initialized = True\<rparr> \<and>
     arenas_constructed s' = Suc (arenas_constructed s) \<and>
     count_defines s' = Some defs"
  using Init_fresh [OF assms] by (simp add: constructed_def constructed_state_fields)

lemma serials_below_new: "serials_below new_manager"
  by (simp add: serials_below_def new_manager_def)

lemma serials_below_Init:
  assumes "serials_below s"
  shows "serials_below (snd (Init env tbb_name s))"
proof -
  have "\<And>n st a. task_arenas s n = Some st \<Longrightarrow> arena st = Some a \<Longrightarrow>
      arena_serial a < Suc (arenas_constructed s)"
    using assms unfolding serials_below_def by (meson less_Suc_eq)
  with assms show ?thesis
    unfolding serials_below_def
    by (auto simp: Init_eq constructed_state_fields lock_guard_fields constructed_def
        split: option.splits sum.splits)
qed

lemma serials_below_Release: "serials_below (Release s)"
  by (simp add: Release_def Let_def serials_below_def lock_guard_def)

lemma Release_fields:
  "task_arenas (Release s) = Map.empty" "thread_contexts (Release s) = Map.empty"
  "lock_log (Release s) = lock_log s @ [arenas_mutex, contexts_mutex]"
  "arenas_constructed (Release s) = arenas_constructed s"
  "count_defines (Release s) = count_defines s"
  by (simp_all add: Release_def Let_def lock_guard_def)

lemma Get_defines_Release:
  "fst (GetTBBParallelCountDefines env (Release s)) = fst (GetTBBParallelCountDefines env s)"
  by (simp add: GetTBBParallelCountDefines_def Release_fields split: option.splits sum.splits)

text \<open>
  Claim C8. \<^verbatim>\<open>Release\<close> acquires the arena lock, then the context lock, and leaves both
  maps empty. For a name that was in the registry, the next \<^verbatim>\<open>Init\<close> constructs an arena
  again: its serial number is the construction count, which no earlier arena has.
\<close>

theorem Release_clears:
  "task_arenas (Release s) = Map.empty \<and> thread_contexts (Release s) = Map.empty \<and>
   lock_log (Release s) = lock_log s @ [arenas_mutex, contexts_mutex] \<and>
   (serials_below s \<and> task_arenas s tbb_name = Some state \<and> arena state = Some old \<and>
    fst (GetTBBParallelCountDefines env s) = Inr defs \<longrightarrow>
      (\<exists>new s'. Init env tbb_name (Release s) = (Inr (Some new), s') \<and>
         arena_serial new = arenas_constructed s \<and>
         arena_serial new \<noteq> arena_serial old \<and>
         arenas_constructed s' = Suc (arenas_constructed s) \<and>
         task_arenas s' tbb_name = Some \<lparr>arena = Some new, initialized = True\<rparr>))"
proof (intro conjI impI)
  assume a: "serials_below s \<and> task_arenas s tbb_name = Some state \<and> arena state = Some old \<and>
    fst (GetTBBParallelCountDefines env s) = Inr defs"
  then have old: "arena_serial old < arenas_constructed s"
    unfolding serials_below_def by blast
  have n: "find_initialized (Release s) tbb_name = None"
    by (simp add: find_initialized_def Release_fields)
  have g: "fst (GetTBBParallelCountDefines env (Release s)) = Inr defs"
    using a by (simp add: Get_defines_Release)
  show "\<exists>new s'. Init env tbb_name (Release s) = (Inr (Some new), s') \<and>
         arena_serial new = arenas_constructed s \<and>
         arena_serial new \<noteq> arena_serial old \<and>
         arenas_constructed s' = Suc (arenas_constructed s) \<and>
         task_arenas s' tbb_name = Some \<lparr>arena = Some new, initialized = True\<rparr>"
    using old
    by (simp add: Init_fresh [OF n g] constructed_def constructed_state_fields Release_fields)
qed (simp_all add: Release_fields)

lemma resolve_x3: "InitTBBParallelCountDefines ''x:3'' = Inr [''x'' \<mapsto> 3]"
  by (simp add: InitTBBParallelCountDefines_def getline_loop.simps getline_def find_char_def
  stoi_def isspace_def isdigit_def digits_value_def)

lemma Get_defines_x3: "fst (GetTBBParallelCountDefines env_x3 new_manager) = Inr [''x'' \<mapsto> 3]"
  by (simp add: GetTBBParallelCountDefines_def env_x3_def new_manager_def resolve_x3)

lemma find_initialized_new: "find_initialized new_manager tbb_name = None"
  by (simp add: find_initialized_def new_manager_def)

theorem Init_concurrency_witness:
  "find_initialized new_manager ''x'' = None \<and>
   fst (GetTBBParallelCountDefines env_x3 new_manager) = Inr [''x'' \<mapsto> 3] \<and>
   (\<exists>a s'. Init env_x3 ''x'' new_manager = (Inr (Some a), s') \<and> max_concurrency a = 3 \<and>
      task_arenas s' ''x'' = Some \<lparr>arena = Some a, initialized = True\<rparr>) \<and>
   (\<exists>a s'. Init env_x3 ''y'' new_manager = (Inr (Some a), s') \<and> max_concurrency a = 8 \<and>
      task_arenas s' ''y'' = Some \<lparr>arena = Some a, initialized = True\<rparr>)"
proof -
  note n = find_initialized_new and g = Get_defines_x3
  from Init_concurrency [OF n g, of "''x''"]
  have x: "\<exists>a s'. Init env_x3 ''x'' new_manager = (Inr (Some a), s') \<and> max_concurrency a = 3 \<and>
      task_arenas s' ''x'' = Some \<lparr>arena = Some a, initialized = True\<rparr>"
    by (simp, blast)
  from Init_concurrency [OF n g, of "''y''"]
  have y: "\<exists>a s'. Init env_x3 ''y'' new_manager = (Inr (Some a), s') \<and> max_concurrency a = 8 \<and>
      task_arenas s' ''y'' = Some \<lparr>arena = Some a, initialized = True\<rparr>"
    by (simp add: env_x3_def, blast)
  from n g x y show ?thesis by blast
qed

lemma Init_x:
  "Init env_x3 ''x'' new_manager =
     (Inr (Some \<lparr>arena_serial = 0, max_concurrency = 3\<rparr>), manager_x)"
  "task_arenas manager_x ''x'' =
     Some \<lparr>arena = Some \<lparr>arena_serial = 0, max_concurrency = 3\<rparr>, initialized = True\<rparr>"
  "arenas_constructed manager_x = 1"
  "count_defines manager_x = Some [''x'' \<mapsto> 3]"
  unfolding manager_x_def Init_fresh [OF find_initialized_new Get_defines_x3]
  by (simp_all add: constructed_def constructed_state_fields new_manager_def)

theorem Init_idempotent_witness:
  "Init env_x3 ''x'' new_manager =
     (Inr (Some \<lparr>arena_serial = 0, max_concurrency = 3\<rparr>), manager_x) \<and>
   fst (Init_repeat env_x3 ''x'' 3 manager_x) =
     replicate 3 (Inr (Some \<lparr>arena_serial = 0, max_concurrency = 3\<rparr>)) \<and>
   arenas_constructed (snd (Init_repeat env_x3 ''x'' 3 manager_x)) = 1"
  using Init_idempotent [OF Init_x(1), of 3] Init_x(1, 3) by simp

theorem Release_clears_witness:
  "serials_below manager_x \<and>
   task_arenas manager_x ''x'' =
     Some \<lparr>arena = Some \<lparr>arena_serial = 0, max_concurrency = 3\<rparr>, initialized = True\<rparr> \<and>
   fst (GetTBBParallelCountDefines env_x3 manager_x) = Inr [''x'' \<mapsto> 3] \<and>
   (\<exists>new s'. Init env_x3 ''x'' (Release manager_x) = (Inr (Some new), s') \<and>
      arena_serial new = 1 \<and> arenas_constructed s' = 2)"
proof -
  have i: "serials_below manager_x"
    unfolding manager_x_def by (rule serials_below_Init [OF serials_below_new])
  have g: "fst (GetTBBParallelCountDefines env_x3 manager_x) = Inr [''x'' \<mapsto> 3]"
    by (simp add: GetTBBParallelCountDefines_def Init_x)
  have a: "arena \<lparr>arena = Some \<lparr>arena_serial = 0, max_concurrency = 3\<rparr>, initialized = True\<rparr> =
      Some \<lparr>arena_serial = 0, max_concurrency = 3\<rparr>"
    by simp
  from Release_clears [of manager_x "''x''" _ _ env_x3] i Init_x(2) a g
  have "\<exists>new s'. Init env_x3 ''x'' (Release manager_x) = (Inr (Some new), s') \<and>
         arena_serial new = arenas_constructed manager_x \<and>
         arena_serial new \<noteq> arena_serial \<lparr>arena_serial = 0, max_concurrency = 3\<rparr> \<and>
         arenas_constructed s' = Suc (arenas_constructed manager_x) \<and>
         task_arenas s' ''x'' = Some \<lparr>arena = Some new, initialized = True\<rparr>"
    by blast
  then have "\<exists>new s'. Init env_x3 ''x'' (Release manager_x) = (Inr (Some new), s') \<and>
      arena_serial new = 1 \<and> arenas_constructed s' = 2"
    by (auto simp: Init_x(3))
  with i Init_x(2) g show ?thesis by blast
qed

section \<open>The element loop and the engine\<close>

lemma find_upto_Some:
  "find P [a..b] = Some k \<Longrightarrow> a \<le> k \<and> k \<le> b \<and> P k"
  by (auto simp: find_Some_iff dest: nth_mem)

lemma foldl_push: "foldl (\<lambda>q ctx. q @ [ctx]) q cs = q @ cs"
  by (induction cs arbitrary: q) simp_all

lemma flush_fields:
  "thread_contexts (flush u cs s) = pushed u cs (thread_contexts s)"
  "lock_log (flush u cs s) = lock_log s @ (if cs = [] then [] else [contexts_mutex])"
  "task_arenas (flush u cs s) = task_arenas s"
  "global_counter (flush u cs s) = global_counter s"
  "count_defines (flush u cs s) = count_defines s"
  "arenas_constructed (flush u cs s) = arenas_constructed s"
  "task_log (flush u cs s) = task_log s"
  "events (flush u cs s) = events s @ (if cs = [] then [] else [Acquired contexts_mutex])"
  by (simp_all add: flush_def pushed_def lock_guard_def Let_def foldl_push)

lemma pushed_pushed: "pushed u ys (pushed u xs m) = pushed u (xs @ ys) m"
  by (auto simp: pushed_def)

lemma pushed_Nil [simp]: "pushed u [] m = m"
  by (simp add: pushed_def)

lemma contexts_of_append [simp]:
  "contexts_of n t (xs @ ys) = contexts_of n t xs @ contexts_of n t ys"
  by (simp add: contexts_of_def)

lemma contexts_of_Nil [simp]: "contexts_of n t [] = []"
  by (simp add: contexts_of_def)

lemma contexts_of_Nil_iff [simp]: "contexts_of n t xs = [] \<longleftrightarrow> xs = []"
  by (simp add: contexts_of_def)

lemma for_loop_eq:
  "for_loop task tbb_name task_id i e local_contexts s =
     (case find (\<lambda>j. task j \<noteq> None) [i..e - 1] of
        None \<Rightarrow>
          (Inr (local_contexts @ contexts_of tbb_name task_id [i..e - 1]),
           s\<lparr>task_log := task_log s @ [i..e - 1],
             events := events s @ map Invoked [i..e - 1]\<rparr>)
      | Some k \<Rightarrow>
          (Inl (the (task k)),
           s\<lparr>task_log := task_log s @ [i..k], events := events s @ map Invoked [i..k]\<rparr>))"
proof (induction task tbb_name task_id i e local_contexts s rule: for_loop.induct)
  case (1 task tbb_name task_id i e local_contexts s)
  show ?case
  proof (cases "i < e")
    case False
    then show ?thesis by (simp add: for_loop.simps [of _ _ _ i])
  next
    case True
    then have u: "[i..e - 1] = i # [i + 1..e - 1]"
      by (simp add: upto_rec1)
    show ?thesis
    proof (cases "task i")
      case (Some err)
      with True u show ?thesis
        by (simp add: for_loop.simps [of _ _ _ i])
    next
      case None
      define s' where "s' = s\<lparr>task_log := task_log s @ [i], events := events s @ [Invoked i]\<rparr>"
      define c where "c = \<lparr>thread_id = static_cast_int i, task_name = tbb_name,
          task_instance_id = task_id\<rparr>"
      have step: "for_loop task tbb_name task_id i e local_contexts s =
          for_loop task tbb_name task_id (i + 1) e (local_contexts @ [c]) s'"
        using True None by (simp add: for_loop.simps [of _ _ _ i] s'_def c_def)
      have IH: "for_loop task tbb_name task_id (i + 1) e (local_contexts @ [c]) s' =
         (case find (\<lambda>j. task j \<noteq> None) [i + 1..e - 1] of
            None \<Rightarrow>
              (Inr ((local_contexts @ [c]) @ contexts_of tbb_name task_id [i + 1..e - 1]),
               s'\<lparr>task_log := task_log s' @ [i + 1..e - 1],
                  events := events s' @ map Invoked [i + 1..e - 1]\<rparr>)
          | Some k \<Rightarrow>
              (Inl (the (task k)),
               s'\<lparr>task_log := task_log s' @ [i + 1..k],
                  events := events s' @ map Invoked [i + 1..k]\<rparr>))"
        unfolding s'_def c_def by (rule "1.IH" [OF True refl refl None])
      show ?thesis
      proof (cases "find (\<lambda>j. task j \<noteq> None) [i + 1..e - 1]")
        case None
        with \<open>task i = None\<close> step IH u show ?thesis
          by (simp add: s'_def c_def contexts_of_def)
      next
        case (Some k)
        from find_upto_Some [OF Some] have "[i..k] = i # [i + 1..k]"
          by (simp add: upto_rec1)
        with Some \<open>task i = None\<close> step IH u show ?thesis
          by (simp add: s'_def)
      qed
    qed
  qed
qed

lemma raising_Some: "raising task sub = Some k \<Longrightarrow> k \<in> set (sub_elems sub) \<and> task k \<noteq> None"
  unfolding raising_def by (auto simp: find_Some_iff)

lemma raising_None: "raising task sub = None \<longleftrightarrow> (\<forall>i \<in> set (sub_elems sub). task i = None)"
  unfolding raising_def by (auto simp: find_None_iff)

lemma sub_error_None:
  "sub_error task sub = None \<longleftrightarrow> fst sub \<le> fst (snd sub) \<and> raising task sub = None"
proof (cases "raising task sub")
  case None
  then show ?thesis by (auto simp: sub_error_def)
next
  case (Some k)
  with raising_Some [OF Some] show ?thesis by (auto simp: sub_error_def)
qed

lemma reversed_elems: "e < b \<Longrightarrow> sub_elems (b, e, f) = []"
  by (simp add: sub_elems_def)

lemma range_body_reversed:
  "e < b \<Longrightarrow> range_body task tbb_name task_id u (b, e) s = (Some LengthError, s)"
  by (simp add: range_body_def)

lemma range_body_eq:
  "b \<le> e \<Longrightarrow>
   range_body task tbb_name task_id u (b, e) s =
     (case raising task (b, e, f) of
        None \<Rightarrow>
          (None, flush u (contexts_of tbb_name task_id [b..e - 1])
                   (s\<lparr>task_log := task_log s @ [b..e - 1],
                      events := events s @ map Invoked [b..e - 1]\<rparr>))
      | Some k \<Rightarrow>
          (map_option TaskError (task k),
           s\<lparr>task_log := task_log s @ [b..k], events := events s @ map Invoked [b..k]\<rparr>))"
proof (cases "raising task (b, e, f)")
  case None
  assume "b \<le> e"
  with None show ?thesis
    by (simp add: range_body_def for_loop_eq raising_def sub_elems_def)
next
  case (Some k)
  assume "b \<le> e"
  with Some raising_Some [OF Some] show ?thesis
    by (auto simp: range_body_def for_loop_eq raising_def sub_elems_def)
qed

lemma range_body_fields:
  "thread_contexts (snd (range_body task n t u (b, e) s)) =
     (if sub_error task (b, e, f) = None
      then pushed u (contexts_of n t [b..e - 1]) (thread_contexts s)
      else thread_contexts s)"
  "lock_log (snd (range_body task n t u (b, e) s)) =
     lock_log s @ (if sub_error task (b, e, f) = None \<and> b < e then [contexts_mutex] else [])"
  "fst (range_body task n t u (b, e) s) = sub_error task (b, e, f)"
  "events (snd (range_body task n t u (b, e) s)) = events s @ sub_events task (b, e, f)"
proof -
  show "thread_contexts (snd (range_body task n t u (b, e) s)) =
     (if sub_error task (b, e, f) = None
      then pushed u (contexts_of n t [b..e - 1]) (thread_contexts s)
      else thread_contexts s)"
  proof (cases "e < b")
    case True
    then show ?thesis by (simp add: range_body_reversed sub_error_def)
  next
    case False
    then have le: "b \<le> e" by simp
    from False show ?thesis
      by (auto simp: range_body_eq [OF le, where f = f] sub_error_None flush_fields
          split: option.splits)
  qed
  show "lock_log (snd (range_body task n t u (b, e) s)) =
     lock_log s @ (if sub_error task (b, e, f) = None \<and> b < e then [contexts_mutex] else [])"
  proof (cases "e < b")
    case True
    then show ?thesis by (simp add: range_body_reversed sub_error_def)
  next
    case False
    then have le: "b \<le> e" by simp
    from False show ?thesis
      by (auto simp: range_body_eq [OF le, where f = f] sub_error_None flush_fields
          split: option.splits)
  qed
  show "fst (range_body task n t u (b, e) s) = sub_error task (b, e, f)"
  proof (cases "e < b")
    case True
    then show ?thesis by (simp add: range_body_reversed sub_error_def)
  next
    case False
    then have le: "b \<le> e" by simp
    from False show ?thesis
      by (auto simp: range_body_eq [OF le, where f = f] sub_error_def split: option.splits)
  qed
  show "events (snd (range_body task n t u (b, e) s)) = events s @ sub_events task (b, e, f)"
  proof (cases "e < b")
    case True
    then show ?thesis
      by (simp add: range_body_reversed sub_events_def raising_def reversed_elems)
  next
    case False
    then have le: "b \<le> e" by simp
    show ?thesis
      by (auto simp: range_body_eq [OF le, where f = f] sub_events_def flush_fields sub_elems_def
          split: option.splits)
  qed
qed

lemma range_body_frame:
  "task_arenas (snd (range_body task n t u (b, e) s)) = task_arenas s"
  "global_counter (snd (range_body task n t u (b, e) s)) = global_counter s"
  "count_defines (snd (range_body task n t u (b, e) s)) = count_defines s"
  "arenas_constructed (snd (range_body task n t u (b, e) s)) = arenas_constructed s"
proof -
  consider "e < b" | "b \<le> e" by linarith
  then have "task_arenas (snd (range_body task n t u (b, e) s)) = task_arenas s \<and>
    global_counter (snd (range_body task n t u (b, e) s)) = global_counter s \<and>
    count_defines (snd (range_body task n t u (b, e) s)) = count_defines s \<and>
    arenas_constructed (snd (range_body task n t u (b, e) s)) = arenas_constructed s"
  proof cases
    case 1
    then show ?thesis by (simp add: range_body_reversed)
  next
    case 2
    show ?thesis
      by (auto simp: range_body_eq [OF 2, where f = True] flush_fields split: option.splits)
  qed
  then show "task_arenas (snd (range_body task n t u (b, e) s)) = task_arenas s"
    "global_counter (snd (range_body task n t u (b, e) s)) = global_counter s"
    "count_defines (snd (range_body task n t u (b, e) s)) = count_defines s"
    "arenas_constructed (snd (range_body task n t u (b, e) s)) = arenas_constructed s"
    by simp_all
qed

lemma range_body_empty:
  assumes "sub_elems (b, e, f) = []"
  shows "snd (range_body task n t u (b, e) s) = s"
proof (cases "e < b")
  case True
  then show ?thesis by (simp add: range_body_reversed)
next
  case False
  with assms have "b = e" by (simp add: sub_elems_def)
  then show ?thesis
    by (simp add: range_body_def for_loop.simps [of _ _ _ e] flush_def)
qed

lemma range_body_task_log:
  assumes "sub_error task (b, e, f) = None"
  shows "task_log (snd (range_body task n t u (b, e) s)) = task_log s @ sub_elems (b, e, f)"
proof -
  from assms have le: "b \<le> e" and r: "raising task (b, e, f) = None"
    by (simp_all add: sub_error_None)
  show ?thesis
    by (simp add: range_body_eq [OF le, where f = f] r flush_fields sub_elems_def)
qed

lemma parallel_for_step:
  "parallel_for ((b, e, f) # rest) body captured s =
     (if captured \<noteq> None \<and> \<not> f then parallel_for rest body captured s
      else parallel_for rest body (if captured = None then fst (body (b, e) s) else captured)
             (snd (body (b, e) s)))"
  by (simp add: case_prod_beta)

lemma parallel_for_contexts:
  "thread_contexts (snd (parallel_for sched (range_body task n t u) captured s)) =
     pushed u (contexts_of n t (concat (map sub_elems (flushed_subs task sched (captured \<noteq> None)))))
       (thread_contexts s)"
proof (induction sched arbitrary: captured s)
  case Nil
  then show ?case by simp
next
  case (Cons sub rest)
  obtain b e f where sub: "sub = (b, e, f)" by (cases sub)
  show ?case
  proof (cases "captured \<noteq> None \<and> \<not> f")
    case True
    then show ?thesis
      unfolding sub parallel_for_step using Cons.IH [of captured s] by simp
  next
    case False
    then show ?thesis
      unfolding sub parallel_for_step
      by (cases "sub_error task (b, e, f)")
        (auto simp: Cons.IH range_body_fields [where f = f] pushed_pushed sub_elems_def)
  qed
qed

lemma parallel_for_locks:
  "lock_log (snd (parallel_for sched (range_body task n t u) captured s)) =
     lock_log s @
       replicate (length (filter (\<lambda>sub. sub_elems sub \<noteq> []) (flushed_subs task sched (captured \<noteq> None))))
         contexts_mutex"
proof (induction sched arbitrary: captured s)
  case Nil
  then show ?case by simp
next
  case (Cons sub rest)
  obtain b e f where sub: "sub = (b, e, f)" by (cases sub)
  have ne: "sub_elems (b, e, f) \<noteq> [] \<longleftrightarrow> b < e"
    by (simp add: sub_elems_def, arith)
  show ?case
  proof (cases "captured \<noteq> None \<and> \<not> f")
    case True
    then show ?thesis
      unfolding sub parallel_for_step using Cons.IH [of captured s] by simp
  next
    case False
    then show ?thesis
      unfolding sub parallel_for_step
      by (cases "sub_error task (b, e, f)")
        (auto simp: Cons.IH range_body_fields [where f = f] ne replicate_app_Cons_same)
  qed
qed

lemma parallel_for_events:
  "events (snd (parallel_for sched (range_body task n t u) captured s)) =
     events s @ concat (map (sub_events task) (started_subs task sched (captured \<noteq> None)))"
proof (induction sched arbitrary: captured s)
  case Nil
  then show ?case by simp
next
  case (Cons sub rest)
  obtain b e f where sub: "sub = (b, e, f)" by (cases sub)
  show ?case
  proof (cases "captured \<noteq> None \<and> \<not> f")
    case True
    then show ?thesis
      unfolding sub parallel_for_step using Cons.IH [of captured s] by simp
  next
    case False
    then show ?thesis
      unfolding sub parallel_for_step
      by (cases "sub_error task (b, e, f)")
        (auto simp: Cons.IH range_body_fields [where f = f])
  qed
qed

lemma parallel_for_frame:
  "task_arenas (snd (parallel_for sched (range_body task n t u) captured s)) = task_arenas s \<and>
   global_counter (snd (parallel_for sched (range_body task n t u) captured s)) = global_counter s \<and>
   count_defines (snd (parallel_for sched (range_body task n t u) captured s)) = count_defines s \<and>
   arenas_constructed (snd (parallel_for sched (range_body task n t u) captured s)) =
     arenas_constructed s"
proof (induction sched arbitrary: captured s)
  case Nil
  show ?case by simp
next
  case (Cons sub rest)
  obtain b e f where sub: "sub = (b, e, f)" by (cases sub)
  show ?case
    unfolding sub parallel_for_step by (simp add: Cons.IH range_body_frame)
qed

lemma parallel_for_result:
  "fst (parallel_for sched (range_body task n t u) captured s) =
     (case captured of None \<Rightarrow> first_error task sched | Some err \<Rightarrow> Some err)"
proof (induction sched arbitrary: captured s)
  case Nil
  then show ?case by (simp split: option.splits)
next
  case (Cons sub rest)
  obtain b e f where sub: "sub = (b, e, f)" by (cases sub)
  show ?case
  proof (cases captured)
    case (Some err)
    then show ?thesis
      unfolding sub parallel_for_step by (simp add: Cons.IH)
  next
    case None
    then show ?thesis
      unfolding sub parallel_for_step
      by (cases "sub_error task (b, e, f)")
        (simp_all add: Cons.IH range_body_fields [where f = f])
  qed
qed

lemma parallel_for_task_log:
  "\<forall>sub \<in> set sched. sub_error task sub = None \<Longrightarrow>
     task_log (snd (parallel_for sched (range_body task n t u) None s)) =
       task_log s @ concat (map sub_elems sched)"
proof (induction sched arbitrary: s)
  case Nil
  then show ?case by simp
next
  case (Cons sub rest)
  obtain b e f where sub: "sub = (b, e, f)" by (cases sub)
  from Cons.prems have r: "sub_error task (b, e, f) = None"
    and rest: "\<forall>sub \<in> set rest. sub_error task sub = None"
    by (simp_all add: sub)
  show ?case
    unfolding sub parallel_for_step
    by (simp add: Cons.IH [OF rest] range_body_fields [where f = f] r range_body_task_log [OF r])
qed

lemma parallel_for_empty:
  "\<forall>sub \<in> set sched. sub_elems sub = [] \<Longrightarrow>
     snd (parallel_for sched (range_body task n t u) captured s) = s"
proof (induction sched arbitrary: captured s)
  case Nil
  then show ?case by simp
next
  case (Cons sub rest)
  obtain b e f where sub: "sub = (b, e, f)" by (cases sub)
  from Cons.prems have e: "sub_elems (b, e, f) = []"
    and rest: "\<forall>sub \<in> set rest. sub_elems sub = []"
    by (simp_all add: sub)
  show ?case
    unfolding sub parallel_for_step
    by (simp add: Cons.IH [OF rest] range_body_empty [OF e])
qed

lemma flushed_subs_no_error:
  "\<forall>sub \<in> set sched. sub_error task sub = None \<Longrightarrow> flushed_subs task sched False = sched"
  by (induction sched) simp_all

lemma started_subs_no_error:
  "\<forall>sub \<in> set sched. sub_error task sub = None \<Longrightarrow> started_subs task sched False = sched"
  by (induction sched) simp_all

lemma flushed_subs_length: "length (flushed_subs task sched failed) \<le> length sched"
  by (induction sched arbitrary: failed) (auto intro: le_SucI)

lemma flushed_subs_started:
  "flushed_subs task sched failed =
     filter (\<lambda>sub. sub_error task sub = None) (started_subs task sched failed)"
  by (induction sched arbitrary: failed) auto

lemma flushed_subs_mset:
  "mset (flushed_subs task sched failed) \<subseteq># mset (filter (\<lambda>sub. sub_error task sub = None) sched)"
proof (induction sched arbitrary: failed)
  case Nil
  then show ?case by simp
next
  case (Cons sub rest)
  show ?case
  proof (cases "sub_error task sub")
    case None
    have w: "A \<subseteq># add_mset sub B" if "A \<subseteq># B" for A B :: "(int \<times> int \<times> bool) multiset"
      using that by (auto simp: subseteq_mset_def intro: le_SucI)
    from None w [OF Cons.IH [of failed]] w [OF Cons.IH [of True]] Cons.IH [of failed]
    show ?thesis by auto
  next
    case (Some k)
    with Cons.IH [of failed] Cons.IH [of True] show ?thesis by simp
  qed
qed

lemma first_error_Some:
  "first_error task sched = Some err \<Longrightarrow> \<exists>sub \<in> set sched. sub_error task sub = Some err"
proof (induction sched)
  case Nil
  then show ?case by simp
next
  case (Cons sub rest)
  then show ?case
    by (cases "sub_error task sub") auto
qed

lemma first_error_raises:
  "sub \<in> set sched \<Longrightarrow> sub_error task sub \<noteq> None \<Longrightarrow> first_error task sched \<noteq> None"
proof (induction sched)
  case Nil
  then show ?case by simp
next
  case (Cons x rest)
  then show ?case
    by (cases "sub_error task x") auto
qed


lemma sub_error_task:
  assumes "sub_error task sub = Some err" and "fst sub \<le> fst (snd sub)"
  shows "\<exists>i e. i \<in> set (sub_elems sub) \<and> task i = Some e \<and> err = TaskError e"
proof (cases "raising task sub")
  case None
  with assms show ?thesis by (simp add: sub_error_def)
next
  case (Some k)
  with assms raising_Some [OF Some] show ?thesis
    by (auto simp: sub_error_def)
qed

section \<open>Dispatch\<close>

lemma GenerateUniqueTaskId_snd:
  "snd (GenerateUniqueTaskId now s) = s\<lparr>global_counter := global_counter s + 1\<rparr>"
  by (simp add: GenerateUniqueTaskId_def Let_def)

lemma find_initialized_counter [simp]:
  "find_initialized (s\<lparr>global_counter := c\<rparr>) tbb_name = find_initialized s tbb_name"
  by (simp add: find_initialized_def)

lemma GetTBBParallelCountDefines_counter [simp]:
  "fst (GetTBBParallelCountDefines env (s\<lparr>global_counter := c\<rparr>)) =
     fst (GetTBBParallelCountDefines env s)"
  by (simp add: GetTBBParallelCountDefines_def split: option.splits sum.splits)

lemma Init_counter:
  "fst (Init env tbb_name (s\<lparr>global_counter := c\<rparr>)) = fst (Init env tbb_name s)"
  by (simp add: Init_eq constructed_def split: option.splits sum.splits)

lemma Init_frame:
  "thread_contexts (snd (Init env tbb_name s)) = thread_contexts s"
  "task_log (snd (Init env tbb_name s)) = task_log s"
  "global_counter (snd (Init env tbb_name s)) = global_counter s"
  "acquisitions contexts_mutex (snd (Init env tbb_name s)) = acquisitions contexts_mutex s"
  by (simp_all add: Init_eq constructed_state_def lock_guard_def acquisitions_def
      split: option.splits sum.splits)

lemma Init_events:
  "\<exists>k. events (snd (Init env tbb_name s)) = events s @ replicate k (Acquired arenas_mutex)"
proof (cases "find_initialized s tbb_name")
  case (Some a)
  have "events (snd (Init env tbb_name s)) = events s @ replicate 1 (Acquired arenas_mutex)"
    using Some by (simp add: Init_eq lock_guard_def)
  then show ?thesis ..
next
  case None
  have "events (snd (Init env tbb_name s)) = events s @ replicate 2 (Acquired arenas_mutex)"
    using None
    by (simp add: Init_eq constructed_state_def lock_guard_def numeral_2_eq_2
        split: sum.splits)
  then show ?thesis ..
qed

lemma acquisitions_counter [simp]:
  "acquisitions m (s\<lparr>global_counter := c\<rparr>) = acquisitions m s"
  by (simp add: acquisitions_def)

lemma dispatched_frame:
  "thread_contexts (dispatched env now tbb_name s) = thread_contexts s"
  "task_log (dispatched env now tbb_name s) = task_log s"
  "acquisitions contexts_mutex (dispatched env now tbb_name s) = acquisitions contexts_mutex s"
  "global_counter (dispatched env now tbb_name s) = global_counter s + 1"
  by (simp_all add: dispatched_def Init_frame GenerateUniqueTaskId_snd)

lemma dispatched_events:
  "\<exists>k. events (dispatched env now tbb_name s) = events s @ replicate k (Acquired arenas_mutex)"
  using Init_events [of env tbb_name "s\<lparr>global_counter := global_counter s + 1\<rparr>"]
  by (simp add: dispatched_def GenerateUniqueTaskId_snd)

lemma ParallelFor_eq:
  "ParallelFor env now sched tbb_name start end' task s =
     (case fst (Init env tbb_name s) of
        Inl err \<Rightarrow> (Inl (ConfigParseError err), dispatched env now tbb_name s)
      | Inr None \<Rightarrow> (Inl NullArena, dispatched env now tbb_name s)
      | Inr (Some a) \<Rightarrow>
          ((case first_error task sched of None \<Rightarrow> Inr () | Some err \<Rightarrow> Inl err),
           snd (parallel_for sched
                  (range_body task tbb_name (next_task_id now s) (instance_name now tbb_name s))
                  None (dispatched env now tbb_name s))))"
proof -
  obtain r s2 where i: "Init env tbb_name (snd (GenerateUniqueTaskId now s)) = (r, s2)"
    by (cases "Init env tbb_name (snd (GenerateUniqueTaskId now s))")
  then have "fst (Init env tbb_name (s\<lparr>global_counter := global_counter s + 1\<rparr>)) = r"
    by (simp add: GenerateUniqueTaskId_snd)
  then have r: "fst (Init env tbb_name s) = r"
    by (simp only: Init_counter)
  have d: "dispatched env now tbb_name s = s2"
    by (simp add: dispatched_def i)
  obtain q s3 where p: "parallel_for sched
      (range_body task tbb_name (next_task_id now s) (instance_name now tbb_name s)) None s2 = (q, s3)"
    by (cases "parallel_for sched
      (range_body task tbb_name (next_task_id now s) (instance_name now tbb_name s)) None s2")
  have q: "q = first_error task sched"
    using parallel_for_result [of sched task tbb_name "next_task_id now s"
        "instance_name now tbb_name s" None s2] p by simp
  show ?thesis
    unfolding r d
    using i p q
    by (simp add: ParallelFor_def case_prod_beta Let_def next_task_id_def instance_name_def
        split: sum.splits option.splits)
qed

lemma ParallelFor_contexts:
  "thread_contexts (snd (ParallelFor env now sched tbb_name start end' task s)) =
     (case fst (Init env tbb_name s) of
        Inr (Some a) \<Rightarrow>
          pushed (instance_name now tbb_name s)
            (contexts_of tbb_name (next_task_id now s)
               (concat (map sub_elems (flushed_subs task sched False))))
            (thread_contexts s)
      | _ \<Rightarrow> thread_contexts s)"
  by (simp add: ParallelFor_eq parallel_for_contexts dispatched_frame
      split: sum.splits option.splits)

lemma replicate_filter_length:
  "length (filter (\<lambda>x. x = m) (xs @ replicate k m)) = length (filter (\<lambda>x. x = m) xs) + k"
  by (induction k) simp_all

lemma ParallelFor_acquisitions:
  "acquisitions contexts_mutex (snd (ParallelFor env now sched tbb_name start end' task s)) =
     (case fst (Init env tbb_name s) of
        Inr (Some a) \<Rightarrow>
          acquisitions contexts_mutex s +
            length (filter (\<lambda>sub. sub_elems sub \<noteq> []) (flushed_subs task sched False))
      | _ \<Rightarrow> acquisitions contexts_mutex s)"
proof -
  have "acquisitions contexts_mutex
      (snd (parallel_for sched (range_body task n t u) None s')) =
      acquisitions contexts_mutex s' +
        length (filter (\<lambda>sub. sub_elems sub \<noteq> []) (flushed_subs task sched False))" for n t u s'
    by (simp add: acquisitions_def parallel_for_locks replicate_filter_length)
  then show ?thesis
    by (simp add: ParallelFor_eq dispatched_frame split: sum.splits option.splits)
qed

lemma empty_partition:
  assumes "end' \<le> start" and "engine_partition start end' sched"
  shows "\<forall>sub \<in> set sched. sub_elems sub = []"
proof -
  from assms have "concat (map sub_elems sched) = []"
    by (simp add: engine_partition_def)
  then show ?thesis by simp
qed

lemma ParallelFor_events:
  "events (snd (ParallelFor env now sched tbb_name start end' task s)) =
     (case fst (Init env tbb_name s) of
        Inr (Some a) \<Rightarrow>
          events (dispatched env now tbb_name s) @
            concat (map (sub_events task) (started_subs task sched False))
      | _ \<Rightarrow> events (dispatched env now tbb_name s))"
  by (simp add: ParallelFor_eq parallel_for_events split: sum.splits option.splits)

lemma ParallelFor_counter:
  "global_counter (snd (ParallelFor env now sched tbb_name start end' task s)) =
     global_counter s + 1"
  by (simp add: ParallelFor_eq parallel_for_frame dispatched_frame
      split: sum.splits option.splits)

text \<open>
  Claim C10. For a call over an empty range (\<open>end \<le> start\<close>), whatever sub-ranges the
  engine hands to the callback (none, or empty ones), the map of context queues after
  the call is the map before it, so no queue is created for the task-instance name; the
  task is invoked on no element, and the context lock is not acquired.
\<close>

theorem ParallelFor_empty_range:
  assumes "end' \<le> start" and "engine_partition start end' sched"
  shows "thread_contexts (snd (ParallelFor env now sched tbb_name start end' task s)) =
       thread_contexts s \<and>
     task_log (snd (ParallelFor env now sched tbb_name start end' task s)) = task_log s \<and>
     acquisitions contexts_mutex (snd (ParallelFor env now sched tbb_name start end' task s)) =
       acquisitions contexts_mutex s"
proof -
  note e = empty_partition [OF assms]
  have "snd (ParallelFor env now sched tbb_name start end' task s) =
      dispatched env now tbb_name s"
    by (simp add: ParallelFor_eq parallel_for_empty [OF e] split: sum.splits option.splits)
  then show ?thesis
    by (simp add: dispatched_frame)
qed

theorem ParallelFor_empty_range_witness:
  "(3 :: int) \<le> 7 \<and> engine_partition 7 3 [(7, 7, True)] \<and>
   thread_contexts (snd (ParallelFor env_x3 0 [(7, 7, True)] ''x'' 7 3 (\<lambda>i. Some ()) new_manager)) =
     thread_contexts new_manager \<and>
   task_log (snd (ParallelFor env_x3 0 [(7, 7, True)] ''x'' 7 3 (\<lambda>i. Some ()) new_manager)) =
     task_log new_manager"
proof -
  have p: "engine_partition 7 3 [(7, 7, True)]"
    by (simp add: engine_partition_def sub_elems_def)
  have l: "(3 :: int) \<le> 7" by simp
  from ParallelFor_empty_range [OF l p, of env_x3 0 "''x''" "\<lambda>i. Some ()" new_manager] p
  show ?thesis by simp
qed

lemma static_cast_int_id: "- (2 ^ 31) \<le> i \<Longrightarrow> i < 2 ^ 31 \<Longrightarrow> static_cast_int i = i"
  unfolding static_cast_int_def by (rule signed_take_bit_int_eq_self)

lemma thread_ids_of_contexts:
  "\<forall>i \<in> set xs. - (2 ^ 31) \<le> i \<and> i < 2 ^ 31 \<Longrightarrow> map thread_id (contexts_of n t xs) = xs"
  by (induction xs) (simp_all add: contexts_of_def static_cast_int_id)


lemma queue_of_pushed:
  "queue_of (s\<lparr>thread_contexts := pushed u cs (thread_contexts s)\<rparr>) u = queue_of s u @ cs"
  by (simp add: queue_of_def pushed_def split: option.splits)

lemma queue_of_fresh:
  assumes "thread_contexts s u = None" and "thread_contexts s' = pushed u cs (thread_contexts s)"
  shows "queue_of s' u = cs"
  using assms by (simp add: queue_of_def pushed_def)

lemma partition_elems:
  assumes "engine_partition start end' sched"
  shows "mset (concat (map sub_elems sched)) = mset [start..end' - 1]"
    and "set (concat (map sub_elems sched)) = {start..end' - 1}"
    and "distinct (concat (map sub_elems sched))"
    and "length (concat (map sub_elems sched)) = nat (end' - start)"
proof -
  show m: "mset (concat (map sub_elems sched)) = mset [start..end' - 1]"
    using assms by (simp add: engine_partition_def)
  from mset_eq_setD [OF m] show "set (concat (map sub_elems sched)) = {start..end' - 1}"
    by simp
  from mset_eq_imp_distinct_iff [OF m] show "distinct (concat (map sub_elems sched))"
    by simp
  from mset_eq_length [OF m] show "length (concat (map sub_elems sched)) = nat (end' - start)"
    by simp
qed

lemma serials_below_counter [simp]:
  "serials_below (s\<lparr>global_counter := c\<rparr>) = serials_below s"
  by (simp add: serials_below_def)

lemma serials_below_ParallelFor:
  assumes "serials_below s"
  shows "serials_below (snd (ParallelFor env now sched tbb_name start end' task s))"
proof -
  have d: "serials_below (dispatched env now tbb_name s)"
    unfolding dispatched_def GenerateUniqueTaskId_snd
    using assms by (intro serials_below_Init) simp
  have "serials_below (snd (parallel_for sched (range_body task n t u) None s'))"
    if "serials_below s'" for n t u s'
    using that by (simp add: serials_below_def parallel_for_frame)
  with d show ?thesis
    by (simp add: ParallelFor_eq split: sum.splits option.splits)
qed

section \<open>Names of task instances\<close>

lemma digits_value_snoc:
  "digits_value (ds @ [c]) = 10 * digits_value ds + (of_char c - 48)"
  by (simp add: digits_value_def)

lemma digits_value_to_string: "0 \<le> n \<Longrightarrow> digits_value (to_string n) = n"
proof (induction n rule: to_string.induct)
  case (1 n)
  show ?case
  proof (cases "n < 10")
    case True
    with "1.prems" show ?thesis
      by (subst to_string.simps) (simp add: digits_value_def)
  next
    case False
    with "1.prems" have IH: "digits_value (to_string (n div 10)) = n div 10"
      by (intro "1.IH") simp_all
    have m: "0 \<le> n mod 10" "n mod 10 < 10" by simp_all
    then have "(48 + n mod 10) mod 256 = 48 + n mod 10"
      by simp
    with False IH show ?thesis
      by (subst to_string.simps) (simp add: digits_value_snoc)
  qed
qed

lemma digit_not_underscore: "0 \<le> d \<Longrightarrow> d < 10 \<Longrightarrow> char_of (48 + d :: int) \<noteq> CHR ''_''"
proof
  assume d: "0 \<le> d" "d < 10" and "char_of (48 + d) = CHR ''_''"
  then have "(of_char (char_of (48 + d)) :: int) = of_char CHR ''_''" by simp
  with d show False by simp
qed

lemma to_string_no_underscore: "0 \<le> n \<Longrightarrow> CHR ''_'' \<notin> set (to_string n)"
proof (induction n rule: to_string.induct)
  case (1 n)
  show ?case
  proof (cases "n < 10")
    case True
    with "1.prems" digit_not_underscore [of n] show ?thesis
      by (subst to_string.simps) auto
  next
    case False
    with "1.prems" have IH: "CHR ''_'' \<notin> set (to_string (n div 10))"
      by (intro "1.IH") simp_all
    have "char_of (48 + n mod 10) \<noteq> CHR ''_''"
      by (rule digit_not_underscore) simp_all
    with False IH show ?thesis
      by (subst to_string.simps) auto
  qed
qed

lemma last_field:
  assumes "CHR ''_'' \<notin> set d"
  shows "takeWhile (\<lambda>c. c \<noteq> CHR ''_'') (rev (n @ ''_'' @ d)) = rev d"
proof -
  have "takeWhile (\<lambda>c. c \<noteq> CHR ''_'') (rev d @ CHR ''_'' # rev n) = rev d"
    using assms by (auto simp: takeWhile_tail)
  then show ?thesis by simp
qed

lemma unique_name_inj:
  assumes "unique_name n t = unique_name n' t'"
  shows "t = t'"
proof -
  have u: "CHR ''_'' \<notin> set (to_string (uint t))" "CHR ''_'' \<notin> set (to_string (uint t'))"
    by (simp_all add: to_string_no_underscore)
  from assms have "rev (n @ ''_'' @ to_string (uint t)) = rev (n' @ ''_'' @ to_string (uint t'))"
    by (simp add: unique_name_def)
  then have "takeWhile (\<lambda>c. c \<noteq> CHR ''_'') (rev (n @ ''_'' @ to_string (uint t))) =
      takeWhile (\<lambda>c. c \<noteq> CHR ''_'') (rev (n' @ ''_'' @ to_string (uint t')))"
    by (rule arg_cong)
  then have "to_string (uint t) = to_string (uint t')"
    by (simp only: last_field [OF u(1)] last_field [OF u(2)] rev_is_rev_conv)
  then have "digits_value (to_string (uint t)) = digits_value (to_string (uint t'))"
    by simp
  then have "uint t = uint t'"
    by (simp add: digits_value_to_string)
  then show ?thesis by (rule word_uint_eqI)
qed

lemma names_issued_fresh:
  assumes "names_issued s"
  shows "thread_contexts s (instance_name now tbb_name s) = None"
proof (rule ccontr)
  assume "thread_contexts s (instance_name now tbb_name s) \<noteq> None"
  with assms obtain n t where k: "instance_name now tbb_name s = unique_name n t"
    and c: "(ucast t :: 32 word) < global_counter s"
    unfolding names_issued_def by blast
  from k have "t = next_task_id now s"
    unfolding instance_name_def by (rule unique_name_inj [symmetric])
  then have "(ucast t :: 32 word) = global_counter s"
    by (simp add: next_task_id_def task_id_low)
  with c show False by simp
qed

lemma names_issued_new: "names_issued new_manager"
  by (simp add: names_issued_def new_manager_def)

lemma names_issued_Init: "names_issued s \<Longrightarrow> names_issued (snd (Init env tbb_name s))"
  by (simp add: names_issued_def Init_frame)

lemma names_issued_Release: "names_issued (Release s)"
  by (simp add: names_issued_def Release_fields)

lemma word_less_succ: "c + 1 \<noteq> 0 \<Longrightarrow> c < c + 1" for c :: "32 word"
proof -
  assume "c + 1 \<noteq> 0"
  then have "1 + c \<noteq> 0" by (simp add: add.commute)
  from unatSuc [OF this] have "unat (c + 1) = Suc (unat c)"
    by (simp add: add.commute)
  then show ?thesis by (simp add: word_less_nat_alt)
qed

lemma word_less_trans_succ: "x < c \<Longrightarrow> c + 1 \<noteq> 0 \<Longrightarrow> x < c + 1" for c :: "32 word"
  using word_less_succ [of c] by simp

lemma pushed_dom:
  "pushed u cs m key = Some y \<Longrightarrow> m key = None \<Longrightarrow> key = u"
  by (auto simp: pushed_def split: if_splits)

lemma names_issued_ParallelFor:
  assumes "names_issued s" and "global_counter s + 1 \<noteq> 0"
  shows "names_issued (snd (ParallelFor env now sched tbb_name start end' task s))"
  unfolding names_issued_def
proof (intro allI impI)
  fix key
  let ?s' = "snd (ParallelFor env now sched tbb_name start end' task s)"
  assume k: "thread_contexts ?s' key \<noteq> None"
  have c: "global_counter ?s' = global_counter s + 1"
    by (rule ParallelFor_counter)
  from k have "key = instance_name now tbb_name s \<or> thread_contexts s key \<noteq> None"
    by (auto simp: ParallelFor_contexts split: sum.splits option.splits dest: pushed_dom)
  then show "\<exists>n t. key = unique_name n t \<and> (ucast t :: 32 word) < global_counter ?s'"
  proof
    assume "key = instance_name now tbb_name s"
    then have "key = unique_name tbb_name (next_task_id now s)"
      by (simp add: instance_name_def)
    moreover have "(ucast (next_task_id now s) :: 32 word) < global_counter ?s'"
      unfolding c using word_less_succ [OF assms(2)]
      by (simp add: next_task_id_def task_id_low)
    ultimately show ?thesis by blast
  next
    assume "thread_contexts s key \<noteq> None"
    with assms(1) obtain n t where "key = unique_name n t"
      and "(ucast t :: 32 word) < global_counter s"
      unfolding names_issued_def by blast
    with word_less_trans_succ [OF this(2) assms(2)] show ?thesis
      unfolding c by blast
  qed
qed

section \<open>The context lock\<close>

lemma nonempty_ranges:
  assumes "\<forall>sub \<in> set sched. fst sub < fst (snd sub)"
  shows "\<forall>sub \<in> set sched. sub_elems sub \<noteq> []"
  using assms by (auto simp: sub_elems_def)

lemma sub_events_no_raise:
  assumes "\<forall>i. task i = None" and "sub_elems sub \<noteq> []"
  shows "sub_events task sub = map Invoked (sub_elems sub) @ [Acquired contexts_mutex]"
proof -
  from assms(1) have "raising task sub = None"
    by (simp add: raising_None)
  with assms(2) show ?thesis by (simp add: sub_events_def)
qed

text \<open>
  Claim C9, as amended. In a dispatch (the arena is there or has been constructed) over
  sub-ranges that are not empty, the steps the dispatch takes after \<^verbatim>\<open>Init\<close> are, sub-range
  by sub-range in the order of the schedule: the calls of the task on the elements of
  the sub-range in order, up to the first that throws, and then, only if none has
  thrown, one acquisition of the context lock, directly after the call on the last
  element. So the lock is acquired once for each sub-range whose elements have all run
  without an error and never for any other, never per element: at most once per
  sub-range in all, and exactly once per sub-range when the task throws on no element.
\<close>

theorem contexts_lock_per_sub_range:
  assumes "fst (Init env tbb_name s) = Inr (Some a)"
    and "\<forall>sub \<in> set sched. fst sub < fst (snd sub)"
  shows "events (snd (ParallelFor env now sched tbb_name start end' task s)) =
       events (dispatched env now tbb_name s) @
         concat (map (sub_events task) (started_subs task sched False)) \<and>
     acquisitions contexts_mutex (snd (ParallelFor env now sched tbb_name start end' task s)) =
       acquisitions contexts_mutex s + length (flushed_subs task sched False) \<and>
     acquisitions contexts_mutex (snd (ParallelFor env now sched tbb_name start end' task s))
       \<le> acquisitions contexts_mutex s + length sched \<and>
     ((\<forall>i. task i = None) \<longrightarrow>
        events (snd (ParallelFor env now sched tbb_name start end' task s)) =
          events (dispatched env now tbb_name s) @
            concat (map (\<lambda>sub. map Invoked (sub_elems sub) @ [Acquired contexts_mutex]) sched) \<and>
        acquisitions contexts_mutex (snd (ParallelFor env now sched tbb_name start end' task s))
          = acquisitions contexts_mutex s + length sched)"
proof -
  let ?s' = "snd (ParallelFor env now sched tbb_name start end' task s)"
  note ne = nonempty_ranges [OF assms(2)]
  have ev: "events ?s' = events (dispatched env now tbb_name s) @
         concat (map (sub_events task) (started_subs task sched False))"
    using assms(1) by (simp add: ParallelFor_events)
  have "set (flushed_subs task sched False) \<subseteq> set sched"
    using set_mset_mono [OF flushed_subs_mset [of task sched False]] by auto
  with ne have "filter (\<lambda>sub. sub_elems sub \<noteq> []) (flushed_subs task sched False) =
      flushed_subs task sched False"
    by (auto simp: filter_id_conv)
  with assms(1) have acq: "acquisitions contexts_mutex ?s' =
       acquisitions contexts_mutex s + length (flushed_subs task sched False)"
    by (simp add: ParallelFor_acquisitions)
  have le: "acquisitions contexts_mutex ?s' \<le> acquisitions contexts_mutex s + length sched"
    using flushed_subs_length [of task sched False] by (simp add: acq)
  have nr: "events ?s' = events (dispatched env now tbb_name s) @
            concat (map (\<lambda>sub. map Invoked (sub_elems sub) @ [Acquired contexts_mutex]) sched) \<and>
        acquisitions contexts_mutex ?s' = acquisitions contexts_mutex s + length sched"
    if t: "\<forall>i. task i = None"
  proof -
    have "\<forall>sub \<in> set sched. sub_error task sub = None"
      using t assms(2) by (auto simp: sub_error_None raising_None)
    then have st: "started_subs task sched False = sched" and fl: "flushed_subs task sched False = sched"
      by (simp_all add: started_subs_no_error flushed_subs_no_error)
    have "concat (map (sub_events task) sched) =
        concat (map (\<lambda>sub. map Invoked (sub_elems sub) @ [Acquired contexts_mutex]) sched)"
    proof (rule arg_cong [where f = concat], rule map_cong [OF refl])
      fix sub
      assume "sub \<in> set sched"
      with ne show "sub_events task sub = map Invoked (sub_elems sub) @ [Acquired contexts_mutex]"
        by (simp add: sub_events_no_raise [OF t])
    qed
    then show ?thesis by (simp only: ev acq st fl)
  qed
  from ev acq le nr show ?thesis by blast
qed

theorem contexts_lock_per_sub_range_witness:
  "fst (Init env_x3 ''x'' new_manager) = Inr (Some \<lparr>arena_serial = 0, max_concurrency = 3\<rparr>) \<and>
   (2 :: int) < 4 \<and> (0 :: int) < 2 \<and>
   events (snd (ParallelFor env_x3 0 [(2, 4, True), (0, 2, True)] ''x'' 0 4 never_fails new_manager)) =
     events (dispatched env_x3 0 ''x'' new_manager) @
       [Invoked 2, Invoked 3, Acquired contexts_mutex, Invoked 0, Invoked 1, Acquired contexts_mutex] \<and>
   acquisitions contexts_mutex
     (snd (ParallelFor env_x3 0 [(2, 4, True), (0, 2, True)] ''x'' 0 4 never_fails new_manager)) =
   acquisitions contexts_mutex new_manager + 2"
proof -
  have i: "fst (Init env_x3 ''x'' new_manager) =
      Inr (Some \<lparr>arena_serial = 0, max_concurrency = 3\<rparr>)"
    by (simp add: Init_x(1))
  have n: "\<forall>sub \<in> set [(2, 4, True), (0, 2, True)]. fst sub < (fst (snd sub) :: int)"
    by simp
  have t: "\<forall>i. never_fails i = None"
    by (simp add: never_fails_def)
  from contexts_lock_per_sub_range [OF i n, where task = never_fails and now = 0
      and start = 0 and end' = 4] t
  have "events (snd (ParallelFor env_x3 0 [(2, 4, True), (0, 2, True)] ''x'' 0 4 never_fails
          new_manager)) =
      events (dispatched env_x3 0 ''x'' new_manager) @
        concat (map (\<lambda>sub. map Invoked (sub_elems sub) @ [Acquired contexts_mutex])
          [(2, 4, True), (0, 2, True)]) \<and>
    acquisitions contexts_mutex
     (snd (ParallelFor env_x3 0 [(2, 4, True), (0, 2, True)] ''x'' 0 4 never_fails new_manager)) =
    acquisitions contexts_mutex new_manager + length [(2 :: int, 4 :: int, True), (0, 2, True)]"
    by blast
  with i show ?thesis by (simp add: sub_elems_def upto_rec1)
qed

text \<open>
  Two sub-ranges, both started, and a task that throws on every element: the task is
  called on 0 and on 2 and the context lock is never acquired, so the acquisitions are
  not as many as the sub-ranges.
\<close>

theorem contexts_lock_raising_counterexample:
  "events (snd (ParallelFor env_x3 0 [(0, 2, True), (2, 4, True)] ''x'' 0 4 always_fails new_manager)) =
     [Acquired arenas_mutex, Acquired arenas_mutex, Invoked 0, Invoked 2] \<and>
   acquisitions contexts_mutex
     (snd (ParallelFor env_x3 0 [(0, 2, True), (2, 4, True)] ''x'' 0 4 always_fails new_manager)) = 0"
  by (simp add: ParallelFor_def GenerateUniqueTaskId_def unique_name_def
      Init_def Init_write_def Init_construct_def find_initialized_def lock_guard_def
      GetTBBParallelCountDefines_def resolve_x3 env_x3_def new_manager_def acquisitions_def
      range_body_def for_loop.simps always_fails_def flush_def Let_def)

section \<open>The overload on a blocked range\<close>

lemma after_calls_after_calls: "after_calls ys (after_calls xs s) = after_calls (xs @ ys) s"
  by (simp add: after_calls_def)

lemma after_calls_Nil [simp]: "after_calls [] s = s"
  by (simp add: after_calls_def)





lemma after_calls_fields [simp]:
  "thread_contexts (after_calls xs s) = thread_contexts s"
  "global_counter (after_calls xs s) = global_counter s"
  by (simp_all add: after_calls_def)

lemma iter_loop_returns:
  "nat (e - b) = k \<Longrightarrow> b \<le> e \<Longrightarrow>
     \<exists>x xs. iter_loop task n t b e local_contexts s = Some (x, after_calls xs s)"
proof (induction k arbitrary: b local_contexts s)
  case 0
  then have "b = e" by simp
  then have "iter_loop task n t b e local_contexts s = Some (Inr local_contexts, after_calls [] s)"
    by (subst iter_loop.simps) simp
  then show ?case by blast
next
  case (Suc k)
  then have lt: "b < e" and k: "nat (e - (b + 1)) = k" and le: "b + 1 \<le> e" by simp_all
  show ?case
  proof (cases "task b")
    case (Some err)
    with lt have "iter_loop task n t b e local_contexts s = Some (Inl err, after_calls [b] s)"
      by (subst iter_loop.simps) (simp add: after_calls_def)
    then show ?thesis by blast
  next
    case None
    with lt have "iter_loop task n t b e local_contexts s =
        iter_loop task n t (b + 1) e (local_contexts @ [zero_context n t]) (after_calls [b] s)"
      by (subst iter_loop.simps) (simp add: zero_context_def after_calls_def)
    with Suc.IH [OF k le, of "local_contexts @ [zero_context n t]" "after_calls [b] s"]
    show ?thesis by (auto simp: after_calls_after_calls)
  qed
qed

lemma sub_range_body_returns:
  "\<exists>x cs s'. sub_range_body task n t u r s = Some (x, s') \<and>
     thread_contexts s' = pushed u cs (thread_contexts s) \<and>
     global_counter s' = global_counter s"
proof (cases "snd r - fst r < 0")
  case True
  then have "sub_range_body task n t u r s = Some (Some LengthError, s)"
    by (simp add: sub_range_body_def)
  moreover have "thread_contexts s = pushed u [] (thread_contexts s)" by simp
  ultimately show ?thesis by blast
next
  case False
  then have le: "fst r \<le> snd r" by simp
  from iter_loop_returns [OF refl le, of task n t "[]" s] obtain x xs where
    i: "iter_loop task n t (fst r) (snd r) [] s = Some (x, after_calls xs s)"
    by blast
  show ?thesis
  proof (cases x)
    case (Inl err)
    with False i have "sub_range_body task n t u r s = Some (Some (TaskError err), after_calls xs s)"
      by (simp add: sub_range_body_def)
    moreover have "thread_contexts (after_calls xs s) = pushed u [] (thread_contexts s)" by simp
    ultimately show ?thesis by (metis after_calls_fields(2))
  next
    case (Inr cs)
    with False i have "sub_range_body task n t u r s = Some (None, flush u cs (after_calls xs s))"
      by (simp add: sub_range_body_def)
    moreover have "thread_contexts (flush u cs (after_calls xs s)) = pushed u cs (thread_contexts s)"
      by (simp add: flush_fields)
    moreover have "global_counter (flush u cs (after_calls xs s)) = global_counter s"
      by (simp add: flush_fields)
    ultimately show ?thesis by blast
  qed
qed

lemma parallel_for_range_returns:
  "\<exists>x cs s'. parallel_for_range sched (sub_range_body task n t u) captured s = Some (x, s') \<and>
     thread_contexts s' = pushed u cs (thread_contexts s) \<and>
     global_counter s' = global_counter s"
proof (induction sched arbitrary: captured s)
  case Nil
  have "parallel_for_range [] (sub_range_body task n t u) captured s = Some (captured, s)"
    by simp
  moreover have "thread_contexts s = pushed u [] (thread_contexts s)" by simp
  ultimately show ?case by blast
next
  case (Cons sub rest)
  obtain b e f where sub: "sub = (b, e, f)" by (cases sub)
  show ?case
  proof (cases "captured \<noteq> None \<and> \<not> f")
    case True
    with Cons.IH [of captured s] show ?thesis by (simp add: sub)
  next
    case False
    from sub_range_body_returns [of task n t u "(b, e)" s] obtain x cs s1 where
      b: "sub_range_body task n t u (b, e) s = Some (x, s1)"
        "thread_contexts s1 = pushed u cs (thread_contexts s)"
        "global_counter s1 = global_counter s"
      by blast
    from Cons.IH [of "if captured = None then x else captured" s1] obtain y ds s' where
      r: "parallel_for_range rest (sub_range_body task n t u)
            (if captured = None then x else captured) s1 = Some (y, s')"
        "thread_contexts s' = pushed u ds (thread_contexts s1)"
        "global_counter s' = global_counter s1"
      by blast
    from False b(1) r(1)
    have "parallel_for_range (sub # rest) (sub_range_body task n t u) captured s = Some (y, s')"
      by (auto simp: sub)
    moreover have "thread_contexts s' = pushed u (cs @ ds) (thread_contexts s)"
      by (simp add: r(2) b(2) pushed_pushed)
    moreover have "global_counter s' = global_counter s"
      by (simp add: r(3) b(3))
    ultimately show ?thesis by blast
  qed
qed

text \<open>
  The second overload returns, whatever the task and the schedule; it appends to one
  queue, the one under its task-instance name, and takes one id.
\<close>

lemma ParallelFor_range_returns:
  "\<exists>x cs s'. ParallelFor_range env now sched tbb_name r task s = Some (x, s') \<and>
     thread_contexts s' = pushed (instance_name now tbb_name s) cs (thread_contexts s) \<and>
     global_counter s' = global_counter s + 1"
proof -
  obtain x s2 where i: "Init env tbb_name (snd (GenerateUniqueTaskId now s)) = (x, s2)"
    by (cases "Init env tbb_name (snd (GenerateUniqueTaskId now s))")
  have d: "thread_contexts s2 = thread_contexts s" "global_counter s2 = global_counter s + 1"
    using dispatched_frame(1,4) [of env now tbb_name s] by (simp_all add: dispatched_def i)
  have e: "thread_contexts s2 = pushed (instance_name now tbb_name s) [] (thread_contexts s)"
    by (simp add: d)
  from parallel_for_range_returns [of sched task tbb_name "next_task_id now s"
      "instance_name now tbb_name s" None s2]
  obtain y cs s' where
    p: "parallel_for_range sched
          (sub_range_body task tbb_name (next_task_id now s) (instance_name now tbb_name s))
          None s2 = Some (y, s')"
      "thread_contexts s' = pushed (instance_name now tbb_name s) cs (thread_contexts s2)"
      "global_counter s' = global_counter s2"
    by blast
  obtain t s1 where g: "GenerateUniqueTaskId now s = (t, s1)"
    by (cases "GenerateUniqueTaskId now s")
  then have t: "t = next_task_id now s" and u: "unique_name tbb_name t = instance_name now tbb_name s"
    by (simp_all add: next_task_id_def instance_name_def)
  from g i have i': "Init env tbb_name s1 = (x, s2)" by simp
  show ?thesis
  proof (cases x)
    case (Inl err)
    with g i' have "ParallelFor_range env now sched tbb_name r task s =
        Some (Inl (ConfigParseError err), s2)"
      by (simp add: ParallelFor_range_def)
    with e d(2) show ?thesis by blast
  next
    case (Inr a)
    show ?thesis
    proof (cases a)
      case None
      with Inr g i' have "ParallelFor_range env now sched tbb_name r task s = Some (Inl NullArena, s2)"
        by (simp add: ParallelFor_range_def)
      with e d(2) show ?thesis by blast
    next
      case (Some ar)
      with Inr g i' p(1) have "ParallelFor_range env now sched tbb_name r task s =
          Some ((case y of Some err \<Rightarrow> Inl err | None \<Rightarrow> Inr ()), s')"
        by (cases y) (simp_all add: ParallelFor_range_def Let_def t instance_name_def [symmetric])
      moreover from p(2,3) d
      have "thread_contexts s' = pushed (instance_name now tbb_name s) cs (thread_contexts s)"
        and "global_counter s' = global_counter s + 1"
        by simp_all
      ultimately show ?thesis by blast
    qed
  qed
qed

lemma names_issued_step:
  assumes "names_issued s" and "global_counter s + 1 \<noteq> 0"
    and t: "thread_contexts s' = pushed (instance_name now tbb_name s) cs (thread_contexts s)"
    and c: "global_counter s' = global_counter s + 1"
  shows "names_issued s'"
  unfolding names_issued_def
proof (intro allI impI)
  fix key
  assume k: "thread_contexts s' key \<noteq> None"
  then have "key = instance_name now tbb_name s \<or> thread_contexts s key \<noteq> None"
    unfolding t by (auto dest: pushed_dom)
  then show "\<exists>n t. key = unique_name n t \<and> (ucast t :: 32 word) < global_counter s'"
  proof
    assume "key = instance_name now tbb_name s"
    then have "key = unique_name tbb_name (next_task_id now s)"
      by (simp add: instance_name_def)
    moreover have "(ucast (next_task_id now s) :: 32 word) < global_counter s'"
      unfolding c using word_less_succ [OF assms(2)]
      by (simp add: next_task_id_def task_id_low)
    ultimately show ?thesis by blast
  next
    assume "thread_contexts s key \<noteq> None"
    with assms(1) obtain n t where "key = unique_name n t"
      and "(ucast t :: 32 word) < global_counter s"
      unfolding names_issued_def by blast
    with word_less_trans_succ [OF this(2) assms(2)] show ?thesis
      unfolding c by blast
  qed
qed

lemma names_issued_ParallelFor_range:
  assumes "names_issued s" and "global_counter s + 1 \<noteq> 0"
    and "ParallelFor_range env now sched tbb_name r task s = Some (x, s')"
  shows "names_issued s'"
proof -
  from ParallelFor_range_returns [of env now sched tbb_name r task s] assms(3)
  obtain cs where
    "thread_contexts s' = pushed (instance_name now tbb_name s) cs (thread_contexts s)"
    "global_counter s' = global_counter s + 1"
    by auto
  from names_issued_step [OF assms(1,2) this] show ?thesis .
qed

lemma names_issued_GetTBBParallelCountDefines:
  "names_issued s \<Longrightarrow> names_issued (snd (GetTBBParallelCountDefines env s))"
  by (simp add: names_issued_def GetTBBParallelCountDefines_def split: option.splits sum.splits)

section \<open>Equations for evaluation\<close>

text \<open>
  The two element loops in closed form (the elements up to the first on which the task
  throws), the flush as one append, and every update of the state with the state
  occurring once. The equations are proved from the definitions; they are the ones by
  which the model is evaluated on a concrete input, and they make that feasible on
  ranges of a thousand elements.
\<close>

lemma find_raising:
  "find (\<lambda>j. \<not> Option.is_none (task j)) xs = find (\<lambda>j. task j \<noteq> None) xs"
  by (simp add: Option.is_none_def)

lemma iter_loop_eq:
  "nat (e - b) = k \<Longrightarrow> b \<le> e \<Longrightarrow>
     iter_loop task n t b e local_contexts s =
       Some (case find (\<lambda>j. task j \<noteq> None) [b..e - 1] of
               None \<Rightarrow>
                 (Inr (local_contexts @ replicate (nat (e - b)) (zero_context n t)),
                  after_calls [b..e - 1] s)
             | Some j \<Rightarrow> (Inl (the (task j)), after_calls [b..j] s))"
proof (induction k arbitrary: b local_contexts s)
  case 0
  then have "b = e" by simp
  then show ?case
    by (subst iter_loop.simps) simp
next
  case (Suc k)
  then have lt: "b < e" and k: "nat (e - (b + 1)) = k" and le: "b + 1 \<le> e" by simp_all
  from lt have u: "[b..e - 1] = b # [b + 1..e - 1]"
    by (simp add: upto_rec1)
  show ?case
  proof (cases "task b")
    case (Some err)
    with lt have "iter_loop task n t b e local_contexts s = Some (Inl err, after_calls [b] s)"
      by (subst iter_loop.simps) (simp add: after_calls_def)
    with Some show ?thesis by (simp add: u)
  next
    case None
    from lt have r: "nat (e - b) = Suc (nat (e - (b + 1)))" by simp
    have c: "[b..j] = b # [b + 1..j]" if "find (\<lambda>j. task j \<noteq> None) [b + 1..e - 1] = Some j" for j
    proof -
      from that have "j \<in> set [b + 1..e - 1]"
        by (auto simp: find_Some_iff)
      then have "b \<le> j" by simp
      then show ?thesis by (simp add: upto_rec1)
    qed
    from lt None have "iter_loop task n t b e local_contexts s =
        iter_loop task n t (b + 1) e (local_contexts @ [zero_context n t]) (after_calls [b] s)"
      by (subst iter_loop.simps) (simp add: zero_context_def after_calls_def)
    also note Suc.IH [OF k le, of "local_contexts @ [zero_context n t]" "after_calls [b] s"]
    finally show ?thesis
      using None c
      by (simp add: u r after_calls_after_calls replicate_app_Cons_same split: option.splits)
  qed
qed


lemma lock_guard_code [code]:
  "lock_guard m s = events_update (\<lambda>ev. ev @ [Acquired m]) (lock_log_update (\<lambda>l. l @ [m]) s)"
  by (cases s) (simp add: lock_guard_def)

lemma for_loop_code [code]:
  "for_loop task tbb_name task_id i e local_contexts s =
     (case find (\<lambda>j. \<not> Option.is_none (task j)) [i..e - 1] of
        None \<Rightarrow>
          (Inr (local_contexts @
                  map (\<lambda>j. \<lparr>thread_id = static_cast_int j, task_name = tbb_name,
                              task_instance_id = task_id\<rparr>) [i..e - 1]),
           events_update (\<lambda>ev. ev @ map Invoked [i..e - 1])
             (task_log_update (\<lambda>l. l @ [i..e - 1]) s))
      | Some k \<Rightarrow>
          (Inl (the (task k)),
           events_update (\<lambda>ev. ev @ map Invoked [i..k]) (task_log_update (\<lambda>l. l @ [i..k]) s)))"
  unfolding find_raising
  by (cases s; cases "find (\<lambda>j. task j \<noteq> None) [i..e - 1]")
    (simp_all add: for_loop_eq contexts_of_def)

lemma iter_loop_code [code]:
  "iter_loop task tbb_name task_id it e local_contexts s =
     (if it \<le> e then
        Some (case find (\<lambda>j. \<not> Option.is_none (task j)) [it..e - 1] of
                None \<Rightarrow>
                  (Inr (local_contexts @
                          replicate (nat (e - it))
                            \<lparr>thread_id = 0, task_name = tbb_name, task_instance_id = task_id\<rparr>),
                   events_update (\<lambda>ev. ev @ map Invoked [it..e - 1])
                     (task_log_update (\<lambda>l. l @ [it..e - 1]) s))
              | Some k \<Rightarrow>
                  (Inl (the (task k)),
                   events_update (\<lambda>ev. ev @ map Invoked [it..k])
                     (task_log_update (\<lambda>l. l @ [it..k]) s)))
      else
        (case task it of
           Some err \<Rightarrow>
             Some (Inl err, events_update (\<lambda>ev. ev @ [Invoked it]) (task_log_update (\<lambda>l. l @ [it]) s))
         | None \<Rightarrow>
             iter_loop task tbb_name task_id (it + 1) e
               (local_contexts @ [\<lparr>thread_id = 0, task_name = tbb_name, task_instance_id = task_id\<rparr>])
               (events_update (\<lambda>ev. ev @ [Invoked it]) (task_log_update (\<lambda>l. l @ [it]) s))))"
proof (cases "it \<le> e")
  case True
  then show ?thesis
    unfolding find_raising
    by (cases s; cases "find (\<lambda>j. task j \<noteq> None) [it..e - 1]")
      (simp_all add: iter_loop_eq [OF refl True] after_calls_def zero_context_def)
next
  case False
  then show ?thesis
    by (cases s; cases "task it") (simp_all add: iter_loop.simps [of _ _ _ it])
qed

lemma flush_code [code]:
  "flush unique_task_name local_contexts s =
     (if local_contexts \<noteq> [] then
        thread_contexts_update
          (\<lambda>m. m(unique_task_name \<mapsto>
             (case m unique_task_name of None \<Rightarrow> [] | Some q \<Rightarrow> q) @ local_contexts))
          (lock_guard contexts_mutex s)
      else s)"
  by (cases s) (simp add: flush_def lock_guard_def Let_def foldl_push)

section \<open>Completeness of the recorded contexts\<close>

lemma to_string_0: "to_string 0 = ''0''"
  by code_simp

lemma to_string_1: "to_string 1 = ''1''"
  by code_simp

lemmas dispatch_eval = ParallelFor_def GenerateUniqueTaskId_def unique_name_def to_string_0
  Init_def Init_write_def Init_construct_def find_initialized_def lock_guard_def
  GetTBBParallelCountDefines_def resolve_x3 env_x3_def new_manager_def
  range_body_def for_loop.simps never_fails_def flush_def Let_def static_cast_int_def

lemma manager_busy_eq:
  "manager_busy =
     \<lparr>task_arenas = [''x'' \<mapsto> \<lparr>arena = Some \<lparr>arena_serial = 0, max_concurrency = 3\<rparr>,
                               initialized = True\<rparr>],
      thread_contexts = [''x_0'' \<mapsto>
        [\<lparr>thread_id = 0, task_name = ''x'', task_instance_id = 0\<rparr>,
         \<lparr>thread_id = 1, task_name = ''x'', task_instance_id = 0\<rparr>]],
      global_counter = 1,
      count_defines = Some [''x'' \<mapsto> 3],
      arenas_constructed = 1,
      lock_log = [arenas_mutex, arenas_mutex, contexts_mutex],
      task_log = [0, 1],
      events = [Acquired arenas_mutex, Acquired arenas_mutex, Invoked 0, Invoked 1,
                Acquired contexts_mutex]\<rparr>"
  unfolding manager_busy_def by (simp add: dispatch_eval)

lemma names_issued_busy: "names_issued manager_busy"
  unfolding manager_busy_def
  by (rule names_issued_ParallelFor [OF names_issued_new]) (simp add: new_manager_def)

lemma Init_busy:
  "fst (Init env_x3 ''x'' manager_busy) = Inr (Some \<lparr>arena_serial = 0, max_concurrency = 3\<rparr>)"
  by (simp add: manager_busy_eq Init_def find_initialized_def lock_guard_def)

lemma instance_name_busy: "instance_name 0 ''x'' manager_busy = ''x_1''"
  by (simp add: manager_busy_eq instance_name_def next_task_id_def GenerateUniqueTaskId_def
      unique_name_def to_string_1)


lemma upto_0_999: "[0..999 :: int] = [0..499] @ [500..999]"
  using upto_split2 [of 0 499 999] by simp

lemma partition_example: "engine_partition 0 1000 [(500, 1000, True), (0, 500, True)]"
  by (simp add: engine_partition_def sub_elems_def upto_0_999)


lemma blocked_example: "blocked_ranges [(500, 1000, True), (0, 500, True)]"
  by (simp add: blocked_ranges_def)


lemma blocked_ranges_iff: "blocked_ranges sched \<longleftrightarrow> (\<forall>sub \<in> set sched. fst sub \<le> fst (snd sub))"
  by (simp add: blocked_ranges_def list_all_iff)


lemma queue_of_appended:
  "thread_contexts s' = pushed u cs (thread_contexts s) \<Longrightarrow> queue_of s' u = queue_of s u @ cs"
  by (simp add: queue_of_def pushed_def split: option.splits)

lemma queue_of_issued:
  "names_issued s \<Longrightarrow> queue_of s (instance_name now tbb_name s) = []"
  by (simp add: queue_of_def names_issued_fresh)







section \<open>Failure of the task\<close>

lemma elems_split:
  "mset (elems sched) = mset (elems (filter P sched)) + mset (elems (filter (\<lambda>sub. \<not> P sub) sched))"
  by (induction sched) (simp_all add: elems_def)

lemma flushed_elems:
  "mset (elems (flushed_subs task sched failed)) \<subseteq>#
     mset (elems (filter (\<lambda>sub. sub_error task sub = None) sched))"
proof (induction sched arbitrary: failed)
  case Nil
  then show ?case by simp
next
  case (Cons sub rest)
  have w: "A \<subseteq># mset (sub_elems sub) + B" if "A \<subseteq># B" for A B
    using that by (simp add: subset_mset.add_increasing)
  show ?case
  proof (cases "sub_error task sub")
    case None
    from None w [OF Cons.IH [of failed]] w [OF Cons.IH [of True]] Cons.IH [of failed]
    show ?thesis by (auto simp: elems_def)
  next
    case (Some k)
    with Cons.IH [of failed] Cons.IH [of True] show ?thesis by (simp add: elems_def)
  qed
qed

lemma sub_elems_subset: "sub \<in> set xs \<Longrightarrow> set (sub_elems sub) \<subseteq> set (elems xs)"
  by (induction xs) (auto simp: elems_def)

lemma failing_sub_not_flushed:
  assumes d: "distinct (elems sched)"
    and sub: "sub \<in> set sched" and r: "sub_error task sub \<noteq> None" and i: "i \<in> set (sub_elems sub)"
  shows "i \<notin> set (elems (flushed_subs task sched False))"
proof
  let ?G = "elems (filter (\<lambda>sub. sub_error task sub = None) sched)"
  let ?B = "elems (filter (\<lambda>sub. \<not> sub_error task sub = None) sched)"
  assume "i \<in> set (elems (flushed_subs task sched False))"
  then have "i \<in># mset (elems (flushed_subs task sched False))" by simp
  then have "i \<in># mset ?G"
    using flushed_elems [of task sched False] by (rule mset_subset_eqD [rotated])
  then have g: "i \<in> set ?G" by simp
  from sub r have "sub \<in> set (filter (\<lambda>sub. \<not> sub_error task sub = None) sched)"
    by simp
  from sub_elems_subset [OF this] i have b: "i \<in> set ?B"
    by blast
  have "mset (elems sched) = mset (?G @ ?B)"
    using elems_split [of sched "\<lambda>sub. sub_error task sub = None"] by simp
  from mset_eq_imp_distinct_iff [OF this] d have "distinct (?G @ ?B)" by simp
  with g b show False by auto
qed

lemma flushed_length:
  assumes "sub \<in> set sched" and "sub_error task sub \<noteq> None" and "sub_elems sub \<noteq> []"
  shows "length (elems (flushed_subs task sched False)) < length (elems sched)"
proof -
  let ?G = "elems (filter (\<lambda>sub. sub_error task sub = None) sched)"
  let ?B = "elems (filter (\<lambda>sub. \<not> sub_error task sub = None) sched)"
  from assms have "sub \<in> set (filter (\<lambda>sub. \<not> sub_error task sub = None) sched)"
    by simp
  with assms(3) have "?B \<noteq> []"
    using sub_elems_subset by fastforce
  then have "0 < length ?B" by simp
  moreover have "length (elems sched) = length ?G + length ?B"
    using arg_cong [OF elems_split [of sched "\<lambda>sub. sub_error task sub = None"], of size] by simp
  moreover have "length (elems (flushed_subs task sched False)) \<le> length ?G"
    using size_mset_mono [OF flushed_elems [of task sched False]] by simp
  ultimately show ?thesis by linarith
qed

lemma flushed_subset: "set (elems (flushed_subs task sched failed)) \<subseteq> set (elems sched)"
proof -
  have "set_mset (mset (elems (flushed_subs task sched failed))) \<subseteq>
      set_mset (mset (elems (filter (\<lambda>sub. sub_error task sub = None) sched)))"
    by (rule set_mset_mono [OF flushed_elems])
  also have "\<dots> \<subseteq> set (elems sched)"
    by (auto simp: elems_def)
  finally show ?thesis by simp
qed

lemma ParallelFor_failure_appended:
  assumes part: "engine_partition 0 1000 sched" and blocked: "blocked_ranges sched"
    and k: "0 \<le> k" "k < 1000" and raise: "task k = Some err"
    and init: "fst (Init env tbb_name s) = Inr (Some a)"
  shows "(\<exists>err' i. fst (ParallelFor env now sched tbb_name 0 1000 task s) = Inl (TaskError err') \<and>
        task i = Some err' \<and> 0 \<le> i \<and> i < 1000) \<and>
     (\<exists>cs. queue_of (snd (ParallelFor env now sched tbb_name 0 1000 task s))
         (instance_name now tbb_name s) = queue_of s (instance_name now tbb_name s) @ cs \<and>
       k \<notin> thread_id ` set cs \<and>
       (\<forall>sub \<in> set sched. k \<in> set (sub_elems sub) \<longrightarrow>
          (\<forall>i \<in> set (sub_elems sub). i \<notin> thread_id ` set cs)) \<and>
       length cs \<le> 999)"
proof -
  define F where "F = elems (flushed_subs task sched False)"
  define cs where "cs = contexts_of tbb_name (next_task_id now s) F"
  note p = partition_elems [OF part, folded elems_def]
  have "thread_contexts (snd (ParallelFor env now sched tbb_name 0 1000 task s)) =
      pushed (instance_name now tbb_name s) cs (thread_contexts s)"
    using init by (simp add: ParallelFor_contexts F_def cs_def elems_def)
  then have q: "queue_of (snd (ParallelFor env now sched tbb_name 0 1000 task s))
         (instance_name now tbb_name s) = queue_of s (instance_name now tbb_name s) @ cs"
    by (rule queue_of_appended)
  have "set F \<subseteq> {0..999}"
    using flushed_subset [of task sched False] p(2) by (simp add: F_def)
  then have "\<forall>i \<in> set F. - (2 ^ 31) \<le> i \<and> i < 2 ^ 31"
    by auto
  then have ids: "map thread_id cs = F"
    unfolding cs_def by (rule thread_ids_of_contexts)
  have idset: "thread_id ` set cs = set F"
    using arg_cong [OF ids, of set] by simp
  from k p(2) have "k \<in> set (elems sched)" by simp
  then obtain sub where sub: "sub \<in> set sched" "k \<in> set (sub_elems sub)"
    by (auto simp: elems_def)
  have fails: "sub_error task sub' \<noteq> None" if "k \<in> set (sub_elems sub')" for sub'
    using that raise by (auto simp: sub_error_None raising_None)
  have not_flushed: "i \<notin> set F"
    if "sub' \<in> set sched" "k \<in> set (sub_elems sub')" "i \<in> set (sub_elems sub')" for sub' i
    using failing_sub_not_flushed [OF p(3) that(1) fails [OF that(2)] that(3)]
    by (simp add: F_def)
  obtain e where e: "first_error task sched = Some e"
    using first_error_raises [OF sub(1) fails [OF sub(2)]] by blast
  from first_error_Some [OF e] obtain sub' where
    sub': "sub' \<in> set sched" "sub_error task sub' = Some e"
    by blast
  from blocked sub'(1) have "fst sub' \<le> fst (snd sub')"
    by (simp add: blocked_ranges_iff)
  from sub_error_task [OF sub'(2) this] obtain i err' where
    i: "i \<in> set (sub_elems sub')" "task i = Some err'" "e = TaskError err'"
    by blast
  from i(1) sub'(1) have "i \<in> set (elems sched)"
    using sub_elems_subset by blast
  with p(2) have range: "0 \<le> i" "i < 1000" by simp_all
  have "fst (ParallelFor env now sched tbb_name 0 1000 task s) = Inl (TaskError err')"
    using init e i(3) by (simp add: ParallelFor_eq)
  with i(2) range
  have c1: "\<exists>err' i. fst (ParallelFor env now sched tbb_name 0 1000 task s) = Inl (TaskError err') \<and>
        task i = Some err' \<and> 0 \<le> i \<and> i < 1000"
    by blast
  have c3: "k \<notin> thread_id ` set cs"
    using not_flushed [OF sub sub(2)] by (simp add: idset)
  have c4: "\<forall>sub \<in> set sched. k \<in> set (sub_elems sub) \<longrightarrow>
        (\<forall>i \<in> set (sub_elems sub). i \<notin> thread_id ` set cs)"
    using not_flushed by (simp add: idset)
  from sub(2) have "sub_elems sub \<noteq> []" by auto
  from flushed_length [OF sub(1) fails [OF sub(2)] this]
  have "length F < length (elems sched)"
    by (simp add: F_def)
  then have c5: "length cs \<le> 999"
    using p(4) by (simp add: cs_def contexts_of_def)
  from c1 q c3 c4 c5 show ?thesis
    by blast
qed

text \<open>
  Claim C2. Let the task throw on element \<open>k\<close> of the range from 0 to 1000, the arena
  being there or constructible. Then, for every schedule by which the engine partitions
  the range into sub-ranges that are not reversed, the call ends with an error that the
  task has thrown on an element of the range (with the error of \<open>k\<close> when the task throws
  on \<open>k\<close> only); among the records that the call appends to the queue under its
  task-instance name there is none of \<open>k\<close> and none of any element of the sub-range that
  holds \<open>k\<close>, and they are at most 999. In a state where all queues are under names
  issued earlier, the appended records are the whole queue, which so holds no record of
  \<open>k\<close>, none of the failing sub-range, and at most 999 records.
\<close>

theorem ParallelFor_failure:
  assumes part: "engine_partition 0 1000 sched" and blocked: "blocked_ranges sched"
    and k: "0 \<le> k" "k < 1000" and raise: "task k = Some err"
    and init: "fst (Init env tbb_name s) = Inr (Some a)"
  shows "(\<exists>err' i. fst (ParallelFor env now sched tbb_name 0 1000 task s) = Inl (TaskError err') \<and>
        task i = Some err' \<and> 0 \<le> i \<and> i < 1000) \<and>
     ((\<forall>i. i \<noteq> k \<longrightarrow> task i = None) \<longrightarrow>
        fst (ParallelFor env now sched tbb_name 0 1000 task s) = Inl (TaskError err)) \<and>
     (\<exists>cs. queue_of (snd (ParallelFor env now sched tbb_name 0 1000 task s))
         (instance_name now tbb_name s) = queue_of s (instance_name now tbb_name s) @ cs \<and>
       k \<notin> thread_id ` set cs \<and>
       (\<forall>sub \<in> set sched. k \<in> set (sub_elems sub) \<longrightarrow>
          (\<forall>i \<in> set (sub_elems sub). i \<notin> thread_id ` set cs)) \<and>
       length cs \<le> 999) \<and>
     (names_issued s \<longrightarrow>
        k \<notin> thread_id ` set (queue_of (snd (ParallelFor env now sched tbb_name 0 1000 task s))
          (instance_name now tbb_name s)) \<and>
        (\<forall>sub \<in> set sched. k \<in> set (sub_elems sub) \<longrightarrow>
           (\<forall>i \<in> set (sub_elems sub).
              i \<notin> thread_id ` set (queue_of (snd (ParallelFor env now sched tbb_name 0 1000 task s))
                (instance_name now tbb_name s)))) \<and>
        length (queue_of (snd (ParallelFor env now sched tbb_name 0 1000 task s))
          (instance_name now tbb_name s)) \<le> 999)"
proof -
  note a = ParallelFor_failure_appended [where task = task and k = k and now = now,
      OF part blocked k raise init]
  from a obtain err' i where
    res: "fst (ParallelFor env now sched tbb_name 0 1000 task s) = Inl (TaskError err')"
      "task i = Some err'"
    by blast
  from a obtain cs where cs: "queue_of (snd (ParallelFor env now sched tbb_name 0 1000 task s))
         (instance_name now tbb_name s) = queue_of s (instance_name now tbb_name s) @ cs"
       "k \<notin> thread_id ` set cs"
       "\<forall>sub \<in> set sched. k \<in> set (sub_elems sub) \<longrightarrow>
          (\<forall>i \<in> set (sub_elems sub). i \<notin> thread_id ` set cs)"
       "length cs \<le> 999"
    by blast
  have c2: "fst (ParallelFor env now sched tbb_name 0 1000 task s) = Inl (TaskError err)"
    if "\<forall>i. i \<noteq> k \<longrightarrow> task i = None"
  proof -
    from that res(2) have "i = k" by (cases "i = k") auto
    with res raise show ?thesis by simp
  qed
  have c4: "k \<notin> thread_id ` set (queue_of (snd (ParallelFor env now sched tbb_name 0 1000 task s))
          (instance_name now tbb_name s)) \<and>
        (\<forall>sub \<in> set sched. k \<in> set (sub_elems sub) \<longrightarrow>
           (\<forall>i \<in> set (sub_elems sub).
              i \<notin> thread_id ` set (queue_of (snd (ParallelFor env now sched tbb_name 0 1000 task s))
                (instance_name now tbb_name s)))) \<and>
        length (queue_of (snd (ParallelFor env now sched tbb_name 0 1000 task s))
          (instance_name now tbb_name s)) \<le> 999"
    if "names_issued s"
  proof -
    have "queue_of (snd (ParallelFor env now sched tbb_name 0 1000 task s))
         (instance_name now tbb_name s) = cs"
      using cs(1) by (simp add: queue_of_issued [OF that])
    with cs(2-4) show ?thesis by (simp only:) simp
  qed
  from a c2 c4 show ?thesis by blast
qed

theorem ParallelFor_failure_witness:
  "engine_partition 0 1000 [(500, 1000, True), (0, 500, True)] \<and>
   blocked_ranges [(500, 1000, True), (0, 500, True)] \<and>
   (0 :: int) \<le> 500 \<and> (500 :: int) < 1000 \<and> fails_at_500 500 = Some () \<and>
   fst (Init env_x3 ''x'' manager_busy) = Inr (Some \<lparr>arena_serial = 0, max_concurrency = 3\<rparr>) \<and>
   names_issued manager_busy \<and>
   length (queue_of manager_busy ''x_0'') = 2 \<and>
   instance_name 0 ''x'' manager_busy = ''x_1'' \<and>
   fst (ParallelFor env_x3 0 [(500, 1000, True), (0, 500, True)] ''x'' 0 1000 fails_at_500 manager_busy)
     = Inl (TaskError ()) \<and>
   500 \<notin> thread_id ` set (queue_of
     (snd (ParallelFor env_x3 0 [(500, 1000, True), (0, 500, True)] ''x'' 0 1000 fails_at_500 manager_busy))
     ''x_1'') \<and>
   length (queue_of
     (snd (ParallelFor env_x3 0 [(500, 1000, True), (0, 500, True)] ''x'' 0 1000 fails_at_500 manager_busy))
     ''x_1'') \<le> 999"
proof -
  have r: "fails_at_500 500 = Some ()"
    by (simp add: fails_at_500_def)
  have o: "\<forall>i. i \<noteq> 500 \<longrightarrow> fails_at_500 i = None"
    by (simp add: fails_at_500_def)
  have k: "(0 :: int) \<le> 500" "(500 :: int) < 1000" by simp_all
  have q: "length (queue_of manager_busy ''x_0'') = 2"
    by (simp add: manager_busy_eq queue_of_def)
  from ParallelFor_failure [where task = fails_at_500 and k = 500 and now = 0,
      OF partition_example blocked_example k r Init_busy] o
    partition_example blocked_example Init_busy r names_issued_busy q instance_name_busy
  show ?thesis by (simp only: instance_name_busy) simp
qed

end
